theory Spec2Isabelle
  imports Main "HOL-Library.Word" "HOL-Library.Monad_Syntax"
begin

unbundle bit_operations_syntax

section \<open>Base media sets (base\_media\_func.h)\<close>

text \<open>
  The header implements, for each kind of base set (graphics, sounds, music), the
  reading of a set description from a loaded ini file (\<open>BaseSet::FillSetDetails\<close>)
  and the registry of the sets that were found (\<open>BaseMedia\<close>: \<open>AddFile\<close>,
  \<open>SetSet\<close>, \<open>GetNumSets\<close>, \<open>GetIndexOfUsedSet\<close>, \<open>TryGetBaseSetFile\<close>,
  \<open>HasSet\<close>).  The functions are embedded one by one, in the order of the header.
\<close>

subsection \<open>C strings and the C library\<close>

text \<open>
  A \<open>char *\<close> is a \<open>string option\<close>: \<open>None\<close> is \<open>NULL\<close>, and \<open>Some s\<close> points at
  the characters \<open>s\<close>, none of which is NUL, followed by the terminating NUL.
  \<open>char_at s i\<close> is \<open>s[i]\<close>; the loops of the header stop at the first NUL they read,
  so they never read behind the terminator.  \<open>strcmp (a, b) == 0\<close> on two strings is
  equality.
\<close>

type_synonym byte = "8 word"
type_synonym cstr = "string option"

definition NUL :: char where
  "NUL = CHR 0x00"

definition char_at :: "string \<Rightarrow> nat \<Rightarrow> char" where
  "char_at s i = (if i < length s then s ! i else NUL)"

text \<open>
  What a call does when it does not return normally: \<open>ReturnsFalse\<close> is the
  \<open>return false\<close> of \<open>FillSetDetails\<close>; \<open>UndefinedBehaviour\<close> is a \<open>NULL\<close> handed
  to a C library function that needs a string (\<open>strcmp\<close>, \<open>xstrdup\<close>).
\<close>

datatype failure = ReturnsFalse | UndefinedBehaviour

text \<open>
  Modelled from the spec: \<open>StrEmpty\<close> and \<open>xstrdup\<close> are declared in string.h, which is
  not part of the source at hand.  A metadata field is missing when it is absent or
  empty, so \<open>StrEmpty\<close> holds for \<open>NULL\<close> and for the string without characters.
  \<open>xstrdup\<close> copies a string; \<open>NULL\<close> is outside its contract.
\<close>

definition StrEmpty :: "cstr \<Rightarrow> bool" where
  "StrEmpty s = (case s of None \<Rightarrow> True | Some v \<Rightarrow> v = [])"

definition xstrdup :: "cstr \<Rightarrow> failure + string" where
  "xstrdup s = (case s of None \<Rightarrow> Inl UndefinedBehaviour | Some v \<Rightarrow> Inr v)"

text \<open>
  \<open>atoi\<close> of the C library, as the GNU C library has it where \<open>long\<close> has 64 bits and
  \<open>int\<close> has 32: \<open>(int) strtol (nptr, NULL, 10)\<close>.  \<open>strtol\<close> reads white space, an
  optional sign, then decimal digits up to the first other character, and gives 0 when
  there is no digit; a number out of the range of \<open>long\<close> gives \<open>LONG_MAX\<close> or
  \<open>LONG_MIN\<close>.  The conversion to \<open>int\<close> keeps the low 32 bits.  An \<open>int\<close> is a word of
  32 bits, which \<open>sint\<close> reads as the signed number.
\<close>

definition isspace_c :: "char \<Rightarrow> bool" where
  "isspace_c c = (c \<in> {CHR '' '', CHR 0x09, CHR 0x0A, CHR 0x0B, CHR 0x0C, CHR 0x0D})"

definition isdigit_c :: "char \<Rightarrow> bool" where
  "isdigit_c c = (of_char (CHR ''0'') \<le> (of_char c :: nat) \<and> (of_char c :: nat) \<le> of_char (CHR ''9''))"

definition LONG_MAX :: int where
  "LONG_MAX = 2 ^ 63 - 1"

definition LONG_MIN :: int where
  "LONG_MIN = - (2 ^ 63)"

fun strtol_digits :: "string \<Rightarrow> int \<Rightarrow> int" where
  "strtol_digits [] acc = acc"
| "strtol_digits (c # cs) acc =
     (if isdigit_c c then strtol_digits cs (acc * 10 + (int (of_char c) - int (of_char (CHR ''0''))))
      else acc)"

definition strtol :: "string \<Rightarrow> int" where
  "strtol s =
     (let v = (case dropWhile isspace_c s of
                 [] \<Rightarrow> 0
               | c # cs \<Rightarrow>
                   if c = CHR ''-'' then - strtol_digits cs 0
                   else if c = CHR ''+'' then strtol_digits cs 0
                   else strtol_digits (c # cs) 0)
      in if LONG_MAX < v then LONG_MAX else if v < LONG_MIN then LONG_MIN else v)"

definition atoi :: "string \<Rightarrow> 32 word" where
  "atoi s = word_of_int (strtol s)"

subsection \<open>The ini file\<close>

text \<open>
  Modelled from the spec: ini\_type.h is not part of the source at hand.  The core needs
  "find group by name" and "find item by key returning an optional string value": an
  item has a name and a value that may be \<open>NULL\<close>, a group is the list of its items in
  file order, a file is the list of its named groups.  \<open>find\<close> gives the first entry
  of that name, \<open>get_group\<close> gives the group of that name, which is empty when the file
  has none.
\<close>

record IniItem =
  item_name :: string
  item_value :: cstr

type_synonym IniGroup = "IniItem list"
type_synonym IniFile = "(string \<times> IniGroup) list"

definition find_item :: "IniGroup \<Rightarrow> string \<Rightarrow> IniItem option" where
  "find_item g n = List.find (\<lambda>item. item_name item = n) g"

definition find_group :: "IniFile \<Rightarrow> string \<Rightarrow> IniGroup option" where
  "find_group ini n = map_of ini n"

definition get_group :: "IniFile \<Rightarrow> string \<Rightarrow> IniGroup" where
  "get_group ini n = (case find_group ini n of None \<Rightarrow> [] | Some g \<Rightarrow> g)"

subsection \<open>The set descriptor\<close>

text \<open>
  \<open>MD5File\<close> and \<open>BaseSet\<close> are declared in headers that are not part of the source;
  the fields are the ones the functions below read and write.  A fixed-size array is a
  list of that length: \<open>hash\<close> has 16 bytes (\<open>TryGetBaseSetFile\<close> folds it into
  \<open>byte md5[16]\<close>), \<open>files\<close> has \<open>Tnum_files\<close> entries.  The counters are
  unbounded numbers here; a counter is incremented at most once for each of the
  \<open>Tnum_files\<close> files.  The version is an \<open>int\<close>, as \<open>atoi\<close> returns it (line 89) and
  \<open>%i\<close> prints it (lines 204, 221 and 236): a word of 32 bits that is compared as a
  signed number.  \<open>next_ptr\<close> is the field \<open>next\<close>; a descriptor
  lives at an address of the store below.  \<open>name\<close> is \<open>NULL\<close> only between the
  \<open>memset\<close> and its assignment in \<open>FillSetDetails\<close>; the descriptor holds the empty
  string there.
\<close>

type_synonym addr = nat

record MD5File =
  filename :: cstr
  hash :: "byte list"
  missing_warning :: cstr

datatype ChecksumResult = CR_MATCH | CR_MISMATCH | CR_NO_FILE

record base_set =
  name :: string
  description :: "string \<rightharpoonup> string"
  shortname :: "32 word"
  version :: "32 word"
  fallback :: bool
  files :: "MD5File list"
  found_files :: nat
  valid_files :: nat
  next_ptr :: "addr option"

text \<open>\<open>memset(this, 0, sizeof(*this))\<close> for a set with \<open>Tnum_files\<close> files.\<close>

definition zero_file :: MD5File where
  "zero_file = \<lparr>filename = None, hash = replicate 16 0, missing_warning = None\<rparr>"

definition zero_set :: "nat \<Rightarrow> base_set" where
  "zero_set Tnum_files =
     \<lparr>name = [], description = Map.empty, shortname = 0, version = 0, fallback = False,
      files = replicate Tnum_files zero_file, found_files = 0, valid_files = 0,
      next_ptr = None\<rparr>"

text \<open>
  Modelled from the spec: \<open>GetNumMissing\<close> is declared with \<open>BaseSet\<close>.  A set has
  missing files when fewer files were found than the set has (\<open>foundFiles < totalFiles\<close>);
  the number of missing files is the difference.
\<close>

definition GetNumMissing :: "base_set \<Rightarrow> int" where
  "GetNumMissing s = int (length (files s)) - int (found_files s)"

subsection \<open>fetch\_metadata\<close>

definition fetch_metadata :: "IniGroup \<Rightarrow> string \<Rightarrow> IniItem option" where
  "fetch_metadata metadata n =
     (case find_item metadata n of
        None \<Rightarrow> None
      | Some item \<Rightarrow> if StrEmpty (item_value item) then None else Some item)"

subsection \<open>FillSetDetails\<close>

text \<open>The loop over the metadata items that adds the translated descriptions (lines 75-79).\<close>

fun add_translations :: "IniItem list \<Rightarrow> (string \<rightharpoonup> string) \<Rightarrow> failure + (string \<rightharpoonup> string)" where
  "add_translations [] d = Inr d"
| "add_translations (item # rest) d =
     (if take 12 (item_name item) \<noteq> ''description.'' then add_translations rest d
      else (case xstrdup (item_value item) of
              Inl e \<Rightarrow> Inl e
            | Inr v \<Rightarrow> add_translations rest (d(drop 12 (item_name item) \<mapsto> v))))"

text \<open>The loop that packs up to four characters of the short name, lowest byte first (lines 83-85).\<close>

function shortname_loop :: "string \<Rightarrow> nat \<Rightarrow> 32 word \<Rightarrow> 32 word" where
  "shortname_loop v i sn =
     (if char_at v i \<noteq> NUL \<and> i < 4
      then shortname_loop v (i + 1) (sn OR push_bit (i * 8) (of_nat (of_char (char_at v i))))
      else sn)"
  by pat_completeness auto
termination
  by (relation "measure (\<lambda>(v, i, sn). 4 - i)") auto

text \<open>
  The metadata part of \<open>FillSetDetails\<close> (lines 66-92): name, description and its
  translations, short name, version, fallback flag.  Each step ends the call with its
  failure or goes on with the next step; the definitions are in the reverse order.
\<close>

definition fill_fallback :: "IniGroup \<Rightarrow> base_set \<Rightarrow> failure + base_set" where
  "fill_fallback metadata this =
     (case find_item metadata ''fallback'' of
        None \<Rightarrow> Inr (this\<lparr>fallback := False\<rparr>)
      | Some item \<Rightarrow>
          (case item_value item of
             None \<Rightarrow> Inl UndefinedBehaviour
           | Some v \<Rightarrow> Inr (this\<lparr>fallback := (v \<noteq> ''0'' \<and> v \<noteq> ''false'')\<rparr>)))"

definition fill_version :: "IniGroup \<Rightarrow> base_set \<Rightarrow> failure + base_set" where
  "fill_version metadata this =
     (case fetch_metadata metadata ''version'' of
        None \<Rightarrow> Inl ReturnsFalse
      | Some item \<Rightarrow>
          (case item_value item of
             None \<Rightarrow> Inl UndefinedBehaviour
           | Some v \<Rightarrow> fill_fallback metadata (this\<lparr>version := atoi v\<rparr>)))"

definition fill_shortname :: "IniGroup \<Rightarrow> base_set \<Rightarrow> failure + base_set" where
  "fill_shortname metadata this =
     (case fetch_metadata metadata ''shortname'' of
        None \<Rightarrow> Inl ReturnsFalse
      | Some item \<Rightarrow>
          (case item_value item of
             None \<Rightarrow> Inl UndefinedBehaviour
           | Some v \<Rightarrow>
               fill_version metadata (this\<lparr>shortname := shortname_loop v 0 (shortname this)\<rparr>)))"

definition fill_description :: "IniGroup \<Rightarrow> base_set \<Rightarrow> failure + base_set" where
  "fill_description metadata this =
     (case fetch_metadata metadata ''description'' of
        None \<Rightarrow> Inl ReturnsFalse
      | Some item \<Rightarrow>
          (case xstrdup (item_value item) of
             Inl e \<Rightarrow> Inl e
           | Inr v \<Rightarrow>
               (case add_translations metadata ((description this)([] \<mapsto> v)) of
                  Inl e \<Rightarrow> Inl e
                | Inr d \<Rightarrow> fill_shortname metadata (this\<lparr>description := d\<rparr>))))"

definition fill_metadata :: "IniGroup \<Rightarrow> base_set \<Rightarrow> failure + base_set" where
  "fill_metadata metadata this =
     (case fetch_metadata metadata ''name'' of
        None \<Rightarrow> Inl ReturnsFalse
      | Some item \<Rightarrow>
          (case xstrdup (item_value item) of
             Inl e \<Rightarrow> Inl e
           | Inr v \<Rightarrow> fill_description metadata (this\<lparr>name := v\<rparr>)))"

text \<open>
  The checksum decoder (lines 124-142): the loop over the \<open>sizeof(file->hash) * 2\<close>
  characters at \<open>c\<close>, two hexadecimal digits for each byte of the hash, the high nibble
  first.  \<open>j\<close> is a \<open>uint\<close>; the store into the \<open>uint8\<close> array narrows it.  The size of
  the hash is the length of the array \<open>h\<close>.  \<open>None\<close> is the \<open>return false\<close> of line 135.
\<close>

definition hex_digit :: "char \<Rightarrow> 32 word option" where
  "hex_digit c =
     (let n = (of_char c :: nat) in
      if of_char (CHR ''0'') \<le> n \<and> n \<le> of_char (CHR ''9'') then Some (of_nat (n - of_char (CHR ''0'')))
      else if of_char (CHR ''a'') \<le> n \<and> n \<le> of_char (CHR ''f'') then Some (of_nat (n - of_char (CHR ''a'') + 10))
      else if of_char (CHR ''A'') \<le> n \<and> n \<le> of_char (CHR ''F'') then Some (of_nat (n - of_char (CHR ''A'') + 10))
      else None)"

function decode_hash :: "string \<Rightarrow> nat \<Rightarrow> byte list \<Rightarrow> byte list option" where
  "decode_hash c i h =
     (if i < length h * 2 then
        (case hex_digit (char_at c i) of
           None \<Rightarrow> None
         | Some j \<Rightarrow>
             decode_hash c (i + 1)
               (if i mod 2 = 0 then h[i div 2 := ucast (push_bit 4 j)]
                else h[i div 2 := (h ! (i div 2)) OR ucast j]))
      else Some h)"
  by pat_completeness auto
termination
  by (relation "measure (\<lambda>(c, i, h). length h * 2 - i)") auto

text \<open>
  The warning shown when the file is missing (lines 145-152): the item of the file, else
  the item \<open>default\<close>, else the empty string.
\<close>

definition origin_warning :: "IniGroup \<Rightarrow> string \<Rightarrow> failure + string" where
  "origin_warning origin fname =
     (case find_item origin fname of
        Some item \<Rightarrow> xstrdup (item_value item)
      | None \<Rightarrow>
          (case find_item origin ''default'' of
             None \<Rightarrow> xstrdup (Some [])
           | Some item \<Rightarrow> xstrdup (item_value item)))"

text \<open>
  One round of the loop over the file types (lines 99-168), for the file of index \<open>i\<close>,
  and the loop (lines 98-169).  \<open>check\<close> is \<open>T::CheckMD5 (file, BASESET_DIR)\<close>,
  \<open>file_names\<close> is the table \<open>file_names\<close> of the set type; both come from the set type
  and the file system.  \<open>count_file\<close> is the \<open>switch\<close> on the result of the check.
\<close>

definition count_file :: "ChecksumResult \<Rightarrow> base_set \<Rightarrow> base_set" where
  "count_file r this =
     (case r of
        CR_MATCH \<Rightarrow> this\<lparr>valid_files := valid_files this + 1, found_files := found_files this + 1\<rparr>
      | CR_MISMATCH \<Rightarrow> this\<lparr>found_files := found_files this + 1\<rparr>
      | CR_NO_FILE \<Rightarrow> this)"

definition fill_file ::
  "(MD5File \<Rightarrow> ChecksumResult) \<Rightarrow> string list \<Rightarrow> IniGroup \<Rightarrow> IniGroup \<Rightarrow> IniGroup \<Rightarrow>
   string \<Rightarrow> bool \<Rightarrow> nat \<Rightarrow> base_set \<Rightarrow> failure + base_set" where
  "fill_file check file_names fs md5s origin path allow_empty_filename i this =
     (case find_item fs (file_names ! i) of
        None \<Rightarrow> Inl ReturnsFalse
      | Some item \<Rightarrow>
          if item_value item = None \<and> \<not> allow_empty_filename then Inl ReturnsFalse
          else
            (case item_value item of
               None \<Rightarrow>
                 Inr (this\<lparr>files := (files this)[i := (files this ! i)\<lparr>filename := None\<rparr>],
                            valid_files := valid_files this + 1,
                            found_files := found_files this + 1\<rparr>)
             | Some fname \<Rightarrow>
                 (case find_item md5s fname of
                    None \<Rightarrow> Inl ReturnsFalse
                  | Some m \<Rightarrow>
                      (case item_value m of
                         None \<Rightarrow> Inl ReturnsFalse
                       | Some c \<Rightarrow>
                           (case decode_hash c 0 (hash (files this ! i)) of
                              None \<Rightarrow> Inl ReturnsFalse
                            | Some h \<Rightarrow>
                                (case origin_warning origin fname of
                                   Inl e \<Rightarrow> Inl e
                                 | Inr w \<Rightarrow>
                                     (let file = \<lparr>filename = Some (path @ fname), hash = h,
                                                  missing_warning = Some w\<rparr>
                                      in Inr (count_file (check file)
                                                (this\<lparr>files := (files this)[i := file]\<rparr>)))))))))"

function files_loop ::
  "(MD5File \<Rightarrow> ChecksumResult) \<Rightarrow> string list \<Rightarrow> IniGroup \<Rightarrow> IniGroup \<Rightarrow> IniGroup \<Rightarrow>
   string \<Rightarrow> bool \<Rightarrow> nat \<Rightarrow> base_set \<Rightarrow> failure + base_set" where
  "files_loop check file_names fs md5s origin path allow_empty_filename i this =
     (if i < length file_names then
        (case fill_file check file_names fs md5s origin path allow_empty_filename i this of
           Inl e \<Rightarrow> Inl e
         | Inr this' \<Rightarrow>
             files_loop check file_names fs md5s origin path allow_empty_filename (i + 1) this')
      else Inr this)"
  by pat_completeness auto
termination
  by (relation "measure (\<lambda>(check, file_names, fs, md5s, origin, path, allow, i, this).
                            length file_names - i)") auto

text \<open>
  \<open>FillSetDetails\<close> (lines 53-172): \<open>Inr this\<close> is \<open>return true\<close> with the descriptor as
  filled.  After \<open>return false\<close> the caller deletes the half-filled descriptor, so it is
  not returned.  \<open>Tnum_files\<close> is the length of \<open>file_names\<close>.
\<close>

definition FillSetDetails ::
  "(MD5File \<Rightarrow> ChecksumResult) \<Rightarrow> string list \<Rightarrow> IniFile \<Rightarrow> string \<Rightarrow> string \<Rightarrow> bool \<Rightarrow>
   failure + base_set" where
  "FillSetDetails check file_names ini path full_filename allow_empty_filename =
     (case find_group ini ''metadata'' of
        None \<Rightarrow> Inl ReturnsFalse
      | Some metadata \<Rightarrow>
          (case fill_metadata metadata (zero_set (length file_names)) of
             Inl e \<Rightarrow> Inl e
           | Inr this \<Rightarrow>
               files_loop check file_names (get_group ini ''files'') (get_group ini ''md5s'')
                 (get_group ini ''origin'') path allow_empty_filename 0 this))"

subsection \<open>The registry\<close>

text \<open>
  The static members of \<open>BaseMedia\<close> and the store of the descriptors they point into.
  \<open>heap\<close> maps the address of every live \<open>Tbase_set\<close> object to its contents; a
  pointer is an \<open>addr option\<close>, with \<open>None\<close> for \<open>NULL\<close>.  A function on the registry
  returns \<open>None\<close> when the run has no result: a loop that follows \<open>next\<close> for ever, a
  pointer to no live object that is dereferenced, or \<open>UndefinedBehaviour\<close> as above.
\<close>

record base_media =
  heap :: "addr \<rightharpoonup> base_set"
  used_set :: "addr option"
  available_sets :: "addr option"
  duplicate_sets :: "addr option"

definition get_next :: "base_media \<Rightarrow> addr \<Rightarrow> addr option option" where
  "get_next m a = map_option next_ptr (heap m a)"

definition set_next :: "base_media \<Rightarrow> addr \<Rightarrow> addr option \<Rightarrow> base_media option" where
  "set_next m a n =
     (case heap m a of
        None \<Rightarrow> None
      | Some s \<Rightarrow> Some (m\<lparr>heap := (heap m)(a \<mapsto> s\<lparr>next_ptr := n\<rparr>)\<rparr>))"

text \<open>
  A \<open>Tbase_set **\<close> of \<open>AddFile\<close> points either at \<open>available_sets\<close> or at the
  \<open>next\<close> field of a descriptor.
\<close>

datatype link = Head | NextOf addr

definition deref :: "base_media \<Rightarrow> link \<Rightarrow> addr option option" where
  "deref m l = (case l of Head \<Rightarrow> Some (available_sets m) | NextOf a \<Rightarrow> get_next m a)"

definition assign :: "base_media \<Rightarrow> link \<Rightarrow> addr option \<Rightarrow> base_media option" where
  "assign m l p = (case l of Head \<Rightarrow> Some (m\<lparr>available_sets := p\<rparr>) | NextOf a \<Rightarrow> set_next m a p)"

subsection \<open>AddFile\<close>

text \<open>The search for a set of the same name or the same short name (lines 194-199).\<close>

partial_function (option) find_duplicate ::
  "(addr \<rightharpoonup> base_set) \<Rightarrow> base_set \<Rightarrow> addr option \<Rightarrow> addr option option" where
  "find_duplicate h new c =
     (case c of
        None \<Rightarrow> Some None
      | Some a \<Rightarrow>
          (case h a of
             None \<Rightarrow> None
           | Some cs \<Rightarrow>
               if name cs = name new \<or> shortname cs = shortname new then Some (Some a)
               else find_duplicate h new (next_ptr cs)))"

text \<open>\<open>while (*prev != duplicate) prev = &(*prev)->next;\<close> (line 211).\<close>

partial_function (option) find_prev :: "base_media \<Rightarrow> addr \<Rightarrow> link \<Rightarrow> link option" where
  "find_prev m duplicate prev =
     (case deref m prev of
        None \<Rightarrow> None
      | Some q \<Rightarrow>
          if q = Some duplicate then Some prev
          else (case q of None \<Rightarrow> None | Some a \<Rightarrow> find_prev m duplicate (NextOf a)))"

text \<open>\<open>while (*last != NULL) last = &(*last)->next;\<close> (line 230).\<close>

partial_function (option) find_last :: "base_media \<Rightarrow> link \<Rightarrow> link option" where
  "find_last m last_link =
     (case deref m last_link of
        None \<Rightarrow> None
      | Some q \<Rightarrow> (case q of None \<Rightarrow> Some last_link | Some a \<Rightarrow> find_last m (NextOf a)))"

text \<open>
  The directory part of the file name behind the base path (lines 184-190): everything
  up to the last path separator, or nothing when there is none.  \<open>PATHSEPCHAR\<close> depends
  on the platform.
\<close>

definition set_path :: "char \<Rightarrow> string \<Rightarrow> string" where
  "set_path PATHSEPCHAR path =
     (if PATHSEPCHAR \<in> set path then rev (dropWhile (\<lambda>c. c \<noteq> PATHSEPCHAR) (rev path)) else [])"

text \<open>
  The body of \<open>if (set->FillSetDetails (...))\<close> (lines 193-237): \<open>new\<close> is the filled
  descriptor, which lives at the address \<open>p\<close>.  \<open>keeps_duplicate\<close> is the condition of
  lines 202-203, \<open>replace_duplicate\<close> is the branch of lines 210-226.
\<close>

definition keeps_duplicate :: "base_set \<Rightarrow> base_set \<Rightarrow> bool" where
  "keeps_duplicate duplicate new =
     ((valid_files duplicate = valid_files new \<and> sint (version duplicate) \<ge> sint (version new)) \<or>
      valid_files duplicate > valid_files new)"

definition replace_duplicate :: "base_media \<Rightarrow> addr \<Rightarrow> addr \<Rightarrow> (base_media \<times> bool) option" where
  "replace_duplicate m p duplicate =
     do {
       prev \<leftarrow> find_prev m duplicate Head;
       m1 \<leftarrow> assign m prev (Some p);
       dn \<leftarrow> get_next m1 duplicate;
       m2 \<leftarrow> set_next m1 p dn;
       m3 \<leftarrow> Some (if used_set m2 = Some duplicate then m2\<lparr>used_set := Some p\<rparr> else m2);
       m4 \<leftarrow> set_next m3 duplicate (duplicate_sets m3);
       Some (m4\<lparr>duplicate_sets := Some duplicate\<rparr>, True)
     }"

definition link_set :: "base_media \<Rightarrow> addr \<Rightarrow> base_set \<Rightarrow> (base_media \<times> bool) option" where
  "link_set m p new =
     (case find_duplicate (heap m) new (available_sets m) of
        None \<Rightarrow> None
      | Some None \<Rightarrow>
          do {
            last_link \<leftarrow> find_last m Head;
            m1 \<leftarrow> assign m last_link (Some p);
            Some (m1, True)
          }
      | Some (Some d) \<Rightarrow>
          (case heap m d of
             None \<Rightarrow> None
           | Some duplicate \<Rightarrow>
               if keeps_duplicate duplicate new then
                 do {
                   m1 \<leftarrow> set_next m p (duplicate_sets m);
                   Some (m1\<lparr>duplicate_sets := Some p\<rparr>, False)
                 }
               else replace_duplicate m p d))"

text \<open>
  \<open>AddFile\<close> (lines 175-245).  \<open>ini_filename\<close> is the parameter \<open>filename\<close>, \<open>ini\<close> is
  the ini file as \<open>LoadFromDisk (filename, BASESET_DIR)\<close> left it, \<open>p\<close> is the address
  that \<open>new Tbase_set ()\<close> returned, \<open>allow_empty_filename\<close> is the default argument of
  the declaration of \<open>FillSetDetails\<close>; \<open>tar_filename\<close> is not used.  A
  \<open>basepath_length\<close> behind the end of the file name has no result.  When
  \<open>FillSetDetails\<close> fails the object is deleted again and the registry is as before.
\<close>

definition AddFile ::
  "(MD5File \<Rightarrow> ChecksumResult) \<Rightarrow> string list \<Rightarrow> bool \<Rightarrow> char \<Rightarrow> IniFile \<Rightarrow> addr \<Rightarrow>
   base_media \<Rightarrow> string \<Rightarrow> nat \<Rightarrow> (base_media \<times> bool) option" where
  "AddFile check file_names allow_empty_filename PATHSEPCHAR ini p m ini_filename basepath_length =
     (if length ini_filename < basepath_length then None
      else
        (case FillSetDetails check file_names ini
                (set_path PATHSEPCHAR (drop basepath_length ini_filename)) ini_filename
                allow_empty_filename of
           Inl UndefinedBehaviour \<Rightarrow> None
         | Inl ReturnsFalse \<Rightarrow> Some (m, False)
         | Inr new \<Rightarrow> link_set (m\<lparr>heap := (heap m)(p \<mapsto> new)\<rparr>) p new))"

subsection \<open>SetSet\<close>

text \<open>
  \<open>SetSet\<close> (lines 253-271).  \<open>DetermineBestSet\<close> is defined with each set type and
  \<open>CheckExternalFiles\<close> is external; the first is a parameter, the second reports on the
  files of the sets in use and leaves the registry as it is.
\<close>

partial_function (option) SetSet_loop ::
  "base_media \<Rightarrow> string \<Rightarrow> addr option \<Rightarrow> (base_media \<times> bool) option" where
  "SetSet_loop m nm s =
     (case s of
        None \<Rightarrow> Some (m, False)
      | Some a \<Rightarrow>
          (case heap m a of
             None \<Rightarrow> None
           | Some t \<Rightarrow>
               if nm = name t then Some (m\<lparr>used_set := Some a\<rparr>, True)
               else SetSet_loop m nm (next_ptr t)))"

definition SetSet ::
  "(base_media \<Rightarrow> (base_media \<times> bool) option) \<Rightarrow> cstr \<Rightarrow> base_media \<Rightarrow> (base_media \<times> bool) option" where
  "SetSet DetermineBestSet nm m =
     (case nm of
        None \<Rightarrow> DetermineBestSet m
      | Some n \<Rightarrow> if StrEmpty nm then DetermineBestSet m else SetSet_loop m n (available_sets m))"

subsection \<open>TryGetBaseSetFile and HasSet, with \<open>ENABLE_NETWORK\<close>\<close>

record ContentInfo =
  unique_id :: "32 word"
  ci_md5sum :: "byte list"

text \<open>The two loops that fold the hashes of all files of a set into \<open>md5\<close> (lines 309-315).\<close>

definition xor_hash :: "byte list \<Rightarrow> byte list \<Rightarrow> byte list" where
  "xor_hash md5 h = map (\<lambda>j. (md5 ! j) XOR (h ! j)) [0..<16]"

definition xor_files :: "base_set \<Rightarrow> byte list" where
  "xor_files s = fold (\<lambda>f md5. xor_hash md5 (hash f)) (files s) (replicate 16 0)"

text \<open>
  The loop of \<open>TryGetBaseSetFile\<close> (lines 301-319) from the set at \<open>s\<close> on; \<open>query\<close> is
  the pair of the parameters \<open>ci\<close> and \<open>md5sum\<close>, which the loop does not change.
  \<open>HasSet\<close> is lines 321-326.
\<close>

partial_function (option) TryGetBaseSetFile_loop ::
  "(addr \<rightharpoonup> base_set) \<Rightarrow> ContentInfo \<times> bool \<Rightarrow> addr option \<Rightarrow> cstr option" where
  "TryGetBaseSetFile_loop h query s =
     (case query of
        (ci, md5sum) \<Rightarrow>
          (case s of
             None \<Rightarrow> Some None
           | Some a \<Rightarrow>
               (case h a of
                  None \<Rightarrow> None
                | Some t \<Rightarrow>
                    if GetNumMissing t \<noteq> 0 then TryGetBaseSetFile_loop h query (next_ptr t)
                    else if shortname t \<noteq> unique_id ci then TryGetBaseSetFile_loop h query (next_ptr t)
                    else if \<not> md5sum then Some (filename (files t ! 0))
                    else if xor_files t = take 16 (ci_md5sum ci) then Some (filename (files t ! 0))
                    else TryGetBaseSetFile_loop h query (next_ptr t))))"

definition TryGetBaseSetFile ::
  "(addr \<rightharpoonup> base_set) \<Rightarrow> ContentInfo \<Rightarrow> bool \<Rightarrow> addr option \<Rightarrow> cstr option" where
  "TryGetBaseSetFile h ci md5sum s = TryGetBaseSetFile_loop h (ci, md5sum) s"

definition HasSet :: "base_media \<Rightarrow> ContentInfo \<Rightarrow> bool \<Rightarrow> bool option" where
  "HasSet m ci md5sum =
     (case TryGetBaseSetFile (heap m) ci md5sum (available_sets m) of
        None \<Rightarrow> None
      | Some r \<Rightarrow>
          if r \<noteq> None then Some True
          else map_option (\<lambda>r. r \<noteq> None) (TryGetBaseSetFile (heap m) ci md5sum (duplicate_sets m)))"

subsection \<open>GetNumSets and GetIndexOfUsedSet\<close>

text \<open>Lines 348-357 and 363-373; the counter \<open>n\<close> is an \<open>int\<close>.\<close>

partial_function (option) GetNumSets_loop :: "base_media \<Rightarrow> addr option \<Rightarrow> int \<Rightarrow> int option" where
  "GetNumSets_loop m s n =
     (case s of
        None \<Rightarrow> Some n
      | Some a \<Rightarrow>
          (case heap m a of
             None \<Rightarrow> None
           | Some t \<Rightarrow>
               if s \<noteq> used_set m \<and> GetNumMissing t \<noteq> 0 then GetNumSets_loop m (next_ptr t) n
               else GetNumSets_loop m (next_ptr t) (n + 1)))"

definition GetNumSets :: "base_media \<Rightarrow> int option" where
  "GetNumSets m = GetNumSets_loop m (available_sets m) 0"

partial_function (option) GetIndexOfUsedSet_loop :: "base_media \<Rightarrow> addr option \<Rightarrow> int \<Rightarrow> int option" where
  "GetIndexOfUsedSet_loop m s n =
     (case s of
        None \<Rightarrow> Some (- 1)
      | Some a \<Rightarrow>
          if s = used_set m then Some n
          else
            (case heap m a of
               None \<Rightarrow> None
             | Some t \<Rightarrow>
                 if GetNumMissing t \<noteq> 0 then GetIndexOfUsedSet_loop m (next_ptr t) n
                 else GetIndexOfUsedSet_loop m (next_ptr t) (n + 1)))"

definition GetIndexOfUsedSet :: "base_media \<Rightarrow> int option" where
  "GetIndexOfUsedSet m = GetIndexOfUsedSet_loop m (available_sets m) 0"

section \<open>Notions of the specification\<close>

subsection \<open>The checksum alphabet and the bytes it encodes\<close>

text \<open>
  The alphabet \<open>[0-9a-fA-F]\<close>, the value of a digit, and the bytes that a string of
  digits encodes, two digits for a byte, the high nibble first.
\<close>

definition is_hex :: "char \<Rightarrow> bool" where
  "is_hex c = (c \<in> set ''0123456789'' \<or> c \<in> set ''abcdef'' \<or> c \<in> set ''ABCDEF'')"

definition hex_value :: "char \<Rightarrow> nat" where
  "hex_value c =
     (if c \<in> set ''0123456789'' then of_char c - 48
      else if c \<in> set ''abcdef'' then of_char c - 87
      else of_char c - 55)"

fun hex_pairs :: "string \<Rightarrow> byte list" where
  "hex_pairs (a # b # cs) = of_nat (16 * hex_value a + hex_value b) # hex_pairs cs"
| "hex_pairs [] = []"
| "hex_pairs [a] = []"

text \<open>
  For the loop invariant of the decoder: the byte number \<open>k\<close> of the result, and the hash
  array when the loop is at the character \<open>i\<close>, which holds the decoded bytes before
  \<open>i\<close>, the high nibble alone when \<open>i\<close> is odd, and the bytes of \<open>h\<close> behind.
\<close>

definition decoded_byte :: "string \<Rightarrow> nat \<Rightarrow> byte" where
  "decoded_byte c k = of_nat (16 * hex_value (c ! (2 * k)) + hex_value (c ! (2 * k + 1)))"

definition partial_hash :: "string \<Rightarrow> nat \<Rightarrow> byte list \<Rightarrow> byte list" where
  "partial_hash c i h =
     map (\<lambda>k. if 2 * k + 1 < i then decoded_byte c k
              else if 2 * k < i then of_nat (16 * hex_value (c ! (2 * k)))
              else h ! k) [0..<length h]"

subsection \<open>A manifest without hard failure\<close>

text \<open>
  A field is present when the metadata group has an item of that name with a value that
  is not empty.  For a hash of 16 bytes, a checksum has exact digits when it has 32
  characters, all of them of the alphabet; it has leading digits when it has at least 32
  characters and the first 32 are of the alphabet.  For a notion \<open>decodable\<close> of the
  checksums that decode, a file slot is in order when the files group has an item for
  it and either the item has no value and empty file names are allowed, or the md5s
  group has a decodable checksum for the file name.  A manifest is in order when it has
  the metadata group with the four required fields and every file slot is in order.
\<close>

definition field_present :: "IniGroup \<Rightarrow> string \<Rightarrow> bool" where
  "field_present metadata n =
     (case find_item metadata n of
        None \<Rightarrow> False
      | Some item \<Rightarrow> (case item_value item of None \<Rightarrow> False | Some v \<Rightarrow> v \<noteq> []))"


definition leading_digits :: "string \<Rightarrow> bool" where
  "leading_digits c = (32 \<le> length c \<and> list_all is_hex (take 32 c))"

definition slot_ok :: "(string \<Rightarrow> bool) \<Rightarrow> IniGroup \<Rightarrow> IniGroup \<Rightarrow> bool \<Rightarrow> string \<Rightarrow> bool" where
  "slot_ok decodable fs md5s allow_empty_filename slot =
     (case find_item fs slot of
        None \<Rightarrow> False
      | Some item \<Rightarrow>
          (case item_value item of
             None \<Rightarrow> allow_empty_filename
           | Some fname \<Rightarrow>
               (case find_item md5s fname of
                  None \<Rightarrow> False
                | Some m \<Rightarrow> (case item_value m of None \<Rightarrow> False | Some c \<Rightarrow> decodable c))))"

definition manifest_ok :: "(string \<Rightarrow> bool) \<Rightarrow> IniFile \<Rightarrow> bool \<Rightarrow> string list \<Rightarrow> bool" where
  "manifest_ok decodable ini allow_empty_filename file_names =
     (case find_group ini ''metadata'' of
        None \<Rightarrow> False
      | Some metadata \<Rightarrow>
          field_present metadata ''name'' \<and> field_present metadata ''description'' \<and>
          field_present metadata ''shortname'' \<and> field_present metadata ''version'' \<and>
          list_all (slot_ok decodable (get_group ini ''files'') (get_group ini ''md5s'')
                      allow_empty_filename)
            file_names)"

text \<open>
  The values are given when every translated description and every item \<open>fallback\<close> of
  the metadata group has a value, and every item of the origin group has one.  These
  are the values that lines 78, 92 and 151 read without a test for \<open>NULL\<close>.
\<close>

definition values_given :: "IniFile \<Rightarrow> bool" where
  "values_given ini =
     (list_all (\<lambda>item. item_name item = ''fallback'' \<or> take 12 (item_name item) = ''description.''
                  \<longrightarrow> item_value item \<noteq> None)
        (get_group ini ''metadata'') \<and>
      list_all (\<lambda>item. item_value item \<noteq> None) (get_group ini ''origin''))"

text \<open>A descriptor without its two counters, which are all that the check of a file changes.\<close>

definition uncounted :: "base_set \<Rightarrow> base_set" where
  "uncounted s = s\<lparr>valid_files := 0, found_files := 0\<rparr>"

subsection \<open>A manifest for the examples\<close>

text \<open>
  A set of two files, \<open>base\<close> and \<open>logos\<close>, of which the manifest lists the first with
  its checksum and leaves the second empty.
\<close>

definition example_metadata :: IniGroup where
  "example_metadata =
     [\<lparr>item_name = ''name'', item_value = Some ''original_windows''\<rparr>,
      \<lparr>item_name = ''shortname'', item_value = Some ''TTDW''\<rparr>,
      \<lparr>item_name = ''version'', item_value = Some ''1''\<rparr>,
      \<lparr>item_name = ''description'', item_value = Some ''Original Windows graphics.''\<rparr>]"

text \<open>The same metadata with a version that no \<open>int\<close> holds.\<close>

definition example_wrapped :: IniGroup where
  "example_wrapped =
     [\<lparr>item_name = ''name'', item_value = Some ''original_windows''\<rparr>,
      \<lparr>item_name = ''shortname'', item_value = Some ''TTDW''\<rparr>,
      \<lparr>item_name = ''version'', item_value = Some ''4294967297''\<rparr>,
      \<lparr>item_name = ''description'', item_value = Some ''Original Windows graphics.''\<rparr>]"

definition example_ini :: "IniGroup \<Rightarrow> string \<Rightarrow> IniFile" where
  "example_ini metadata md5 =
     [(''metadata'', metadata),
      (''files'', [\<lparr>item_name = ''base'', item_value = Some ''trg1r.grf''\<rparr>,
                   \<lparr>item_name = ''logos'', item_value = None\<rparr>]),
      (''md5s'', [\<lparr>item_name = ''trg1r.grf'', item_value = Some md5\<rparr>]),
      (''origin'', [\<lparr>item_name = ''default'', item_value = Some ''Find it on the CD-ROM.''\<rparr>])]"


definition example_file_names :: "string list" where
  "example_file_names = [''base'', ''logos'']"

definition example_filename :: string where
  "example_filename = ''data/original_windows.obg''"

definition example_md5 :: string where
  "example_md5 = ''b04ce593d8c5016e07473a743d7d3358''"

definition example_fill ::
  "ChecksumResult \<Rightarrow> IniGroup \<Rightarrow> string \<Rightarrow> failure + base_set" where
  "example_fill r metadata md5 =
     FillSetDetails (\<lambda>file. r) example_file_names (example_ini metadata md5)
       ''data/'' example_filename True"

subsection \<open>The lists of the registry\<close>

text \<open>
  \<open>next_path h q as r\<close>: following \<open>next\<close> from the pointer \<open>q\<close> visits the descriptors at
  the addresses \<open>as\<close>, in this order, and arrives at the pointer \<open>r\<close>.  A pointer heads
  the list \<open>as\<close> when the path ends in \<open>NULL\<close>.  The registry holds the accepted sets
  \<open>as\<close> and the superseded sets \<open>ds\<close> when \<open>available_sets\<close> heads \<open>as\<close>,
  \<open>duplicate_sets\<close> heads \<open>ds\<close>, and no descriptor is in both lists.  The set in use is
  linked when \<open>used_set\<close> is \<open>NULL\<close> or the address of an accepted set.
\<close>

fun next_path :: "(addr \<rightharpoonup> base_set) \<Rightarrow> addr option \<Rightarrow> addr list \<Rightarrow> addr option \<Rightarrow> bool" where
  "next_path h q [] r = (q = r)"
| "next_path h q (a # as) r =
     (q = Some a \<and> (case h a of None \<Rightarrow> False | Some s \<Rightarrow> next_path h (next_ptr s) as r))"

definition chain :: "(addr \<rightharpoonup> base_set) \<Rightarrow> addr option \<Rightarrow> addr list \<Rightarrow> bool" where
  "chain h q as = next_path h q as None"

definition registry :: "base_media \<Rightarrow> addr list \<Rightarrow> addr list \<Rightarrow> bool" where
  "registry m as ds =
     (chain (heap m) (available_sets m) as \<and> chain (heap m) (duplicate_sets m) ds \<and>
      distinct (as @ ds))"

definition used_linked :: "base_media \<Rightarrow> addr list \<Rightarrow> bool" where
  "used_linked m as = (case used_set m of None \<Rightarrow> True | Some u \<Rightarrow> u \<in> set as)"

text \<open>The list that a \<open>Tbase_set **\<close> heads is the list that the pointer behind it heads.\<close>

definition link_chain :: "base_media \<Rightarrow> link \<Rightarrow> addr list \<Rightarrow> bool" where
  "link_chain m l as = (case deref m l of None \<Rightarrow> False | Some q \<Rightarrow> chain (heap m) q as)"

text \<open>
  A descriptor with the link to its successor cleared: what \<open>FillSetDetails\<close> filled in.
\<close>

definition unlinked :: "base_set \<Rightarrow> base_set" where
  "unlinked s = s\<lparr>next_ptr := None\<rparr>"

text \<open>
  The accepted set at \<open>a\<close> collides with the new descriptor when it has the same name or
  the same short name.
\<close>

definition collides :: "(addr \<rightharpoonup> base_set) \<Rightarrow> base_set \<Rightarrow> addr \<Rightarrow> bool" where
  "collides h new a =
     (case h a of None \<Rightarrow> False | Some c \<Rightarrow> name c = name new \<or> shortname c = shortname new)"

text \<open>
  A set is complete when it has no missing file, and visible in the enumeration when it
  is the set in use or complete.
\<close>

definition complete_at :: "(addr \<rightharpoonup> base_set) \<Rightarrow> addr \<Rightarrow> bool" where
  "complete_at h a = (case h a of None \<Rightarrow> False | Some t \<Rightarrow> GetNumMissing t = 0)"

definition visible :: "base_media \<Rightarrow> addr \<Rightarrow> bool" where
  "visible m a = (used_set m = Some a \<or> complete_at (heap m) a)"

definition name_at :: "(addr \<rightharpoonup> base_set) \<Rightarrow> addr \<Rightarrow> string option" where
  "name_at h a = map_option name (h a)"

text \<open>
  The combined digest of a set is the XOR, byte by byte, of the checksums of all its
  files in the order of the file table.  A set satisfies a query when it has no missing
  file, its short name is the requested identifier and, where the digest is to be
  checked, its combined digest is the requested digest.  The primary file of a set is
  the file of its first slot.
\<close>

definition combined_digest :: "base_set \<Rightarrow> byte list" where
  "combined_digest t = foldl (map2 (XOR)) (replicate 16 0) (map hash (files t))"

definition satisfies :: "(addr \<rightharpoonup> base_set) \<Rightarrow> ContentInfo \<Rightarrow> bool \<Rightarrow> addr \<Rightarrow> bool" where
  "satisfies h ci md5sum a =
     (case h a of
        None \<Rightarrow> False
      | Some t \<Rightarrow>
          GetNumMissing t = 0 \<and> shortname t = unique_id ci \<and>
          (\<not> md5sum \<or> combined_digest t = take 16 (ci_md5sum ci)))"

definition primary_file :: "(addr \<rightharpoonup> base_set) \<Rightarrow> addr \<Rightarrow> cstr" where
  "primary_file h a = (case h a of None \<Rightarrow> None | Some t \<Rightarrow> filename (files t ! 0))"

definition first_match :: "(addr \<rightharpoonup> base_set) \<Rightarrow> ContentInfo \<Rightarrow> bool \<Rightarrow> addr list \<Rightarrow> cstr" where
  "first_match h ci md5sum as =
     (case List.find (satisfies h ci md5sum) as of None \<Rightarrow> None | Some a \<Rightarrow> primary_file h a)"

definition hashes_sized :: "(addr \<rightharpoonup> base_set) \<Rightarrow> addr \<Rightarrow> bool" where
  "hashes_sized h a =
     (case h a of None \<Rightarrow> False | Some t \<Rightarrow> list_all (\<lambda>f. length (hash f) = 16) (files t))"

subsection \<open>A registry for the examples\<close>

text \<open>
  Descriptors of two files as the example manifest gives them, and a registry that
  accepted the sets at the addresses 10, 20 and 30 and superseded the set at 40; the set
  in use is the one at 30.  The sets at 20 and 30 have a missing file; the set at 40 has
  the short name of the set at 20, a lower version, and a mismatched file but none
  missing.
\<close>

definition example_file :: MD5File where
  "example_file =
     \<lparr>filename = Some ''data/trg1r.grf'',
      hash = [0xb0, 0x4c, 0xe5, 0x93, 0xd8, 0xc5, 0x01, 0x6e,
              0x07, 0x47, 0x3a, 0x74, 0x3d, 0x7d, 0x33, 0x58],
      missing_warning = Some ''Find it on the CD-ROM.''\<rparr>"

definition example_set :: "string \<Rightarrow> 32 word \<Rightarrow> 32 word \<Rightarrow> nat \<Rightarrow> nat \<Rightarrow> addr option \<Rightarrow> base_set" where
  "example_set n sn v valid found nx =
     \<lparr>name = n, description = Map.empty, shortname = sn, version = v, fallback = False,
      files = [example_file, zero_file], found_files = found, valid_files = valid,
      next_ptr = nx\<rparr>"

definition example_registry :: "base_set \<Rightarrow> base_media" where
  "example_registry second =
     \<lparr>heap = [10 \<mapsto> example_set ''alpha'' 1 1 2 2 (Some 20),
              20 \<mapsto> second\<lparr>next_ptr := Some 30\<rparr>,
              30 \<mapsto> example_set ''gamma'' 3 1 1 1 None,
              40 \<mapsto> example_set ''beta'' 2 2 1 2 None],
      used_set = Some 30, available_sets = Some 10, duplicate_sets = Some 40\<rparr>"

definition example_beta :: base_set where
  "example_beta = example_set ''beta'' 2 3 1 1 None"

definition example_old :: base_set where
  "example_old = example_set ''original_windows'' 0x57445454 0 2 2 None"

definition example_current :: base_set where
  "example_current = example_set ''original_windows'' 0x57445454 2 2 2 None"

definition empty_registry :: base_media where
  "empty_registry =
     \<lparr>heap = Map.empty, used_set = None, available_sets = None, duplicate_sets = None\<rparr>"

definition example_AddFile ::
  "IniGroup \<Rightarrow> string \<Rightarrow> addr \<Rightarrow> base_media \<Rightarrow> (base_media \<times> bool) option" where
  "example_AddFile metadata md5 p m =
     AddFile (\<lambda>file. CR_MATCH) example_file_names True (CHR ''/'')
       (example_ini metadata md5) p m example_filename 0"

section \<open>The checksum decoder\<close>

text \<open>
  The recursive equations of the loops are unfolded by hand, one round at a time.
\<close>

declare decode_hash.simps [simp del] shortname_loop.simps [simp del] files_loop.simps [simp del]

lemma of_char_image: "(of_char c :: nat) \<in> of_char ` A \<Longrightarrow> c \<in> A"
  by (auto simp: image_iff)

lemma digit_range:
  "48 \<le> (of_char c :: nat) \<Longrightarrow> (of_char c :: nat) \<le> 57 \<Longrightarrow> c \<in> set ''0123456789''"
proof (rule of_char_image)
  assume "48 \<le> (of_char c :: nat)" "(of_char c :: nat) \<le> 57"
  then have "(of_char c :: nat) \<in> {48, 49, 50, 51, 52, 53, 54, 55, 56, 57}"
    by (simp; arith)
  then show "(of_char c :: nat) \<in> of_char ` set ''0123456789''"
    by simp
qed

lemma lower_range:
  "97 \<le> (of_char c :: nat) \<Longrightarrow> (of_char c :: nat) \<le> 102 \<Longrightarrow> c \<in> set ''abcdef''"
proof (rule of_char_image)
  assume "97 \<le> (of_char c :: nat)" "(of_char c :: nat) \<le> 102"
  then have "(of_char c :: nat) \<in> {97, 98, 99, 100, 101, 102}"
    by (simp; arith)
  then show "(of_char c :: nat) \<in> of_char ` set ''abcdef''"
    by simp
qed

lemma upper_range:
  "65 \<le> (of_char c :: nat) \<Longrightarrow> (of_char c :: nat) \<le> 70 \<Longrightarrow> c \<in> set ''ABCDEF''"
proof (rule of_char_image)
  assume "65 \<le> (of_char c :: nat)" "(of_char c :: nat) \<le> 70"
  then have "(of_char c :: nat) \<in> {65, 66, 67, 68, 69, 70}"
    by (simp; arith)
  then show "(of_char c :: nat) \<in> of_char ` set ''ABCDEF''"
    by simp
qed

lemma hex_digit_Some: "hex_digit c = Some j \<Longrightarrow> is_hex c"
proof -
  assume a: "hex_digit c = Some j"
  let ?n = "of_char c :: nat"
  from a consider "48 \<le> ?n \<and> ?n \<le> 57" | "97 \<le> ?n \<and> ?n \<le> 102" | "65 \<le> ?n \<and> ?n \<le> 70"
    unfolding hex_digit_def Let_def by (simp split: if_splits)
  then show ?thesis
  proof cases
    case 1
    then have "c \<in> set ''0123456789''" using digit_range by blast
    then show ?thesis unfolding is_hex_def by blast
  next
    case 2
    then have "c \<in> set ''abcdef''" using lower_range by blast
    then show ?thesis unfolding is_hex_def by blast
  next
    case 3
    then have "c \<in> set ''ABCDEF''" using upper_range by blast
    then show ?thesis unfolding is_hex_def by blast
  qed
qed

lemma hex_digit_is_hex: "is_hex c \<Longrightarrow> hex_digit c = Some (of_nat (hex_value c))"
proof -
  assume c: "is_hex c"
  have "\<forall>d \<in> set ''0123456789abcdefABCDEF''. hex_digit d = Some (of_nat (hex_value d))"
    by (simp add: hex_digit_def hex_value_def)
  moreover have "c \<in> set ''0123456789abcdefABCDEF''"
    using c unfolding is_hex_def by auto
  ultimately show ?thesis by blast
qed

lemma hex_value_less: "is_hex c \<Longrightarrow> hex_value c < 16"
proof -
  assume c: "is_hex c"
  have "\<forall>d \<in> set ''0123456789abcdefABCDEF''. hex_value d < 16"
    by (simp add: hex_value_def)
  moreover have "c \<in> set ''0123456789abcdefABCDEF''"
    using c unfolding is_hex_def by auto
  ultimately show ?thesis by blast
qed

lemma hex_digit_None: "(hex_digit c = None) = (\<not> is_hex c)"
  using hex_digit_Some hex_digit_is_hex by (cases "hex_digit c") auto

lemma nat_nibbles: "b < 16 \<Longrightarrow> 16 * (a::nat) OR b = 16 * a + b"
proof -
  assume "b < 16"
  then have b: "take_bit 4 b = b" by (simp add: take_bit_nat_eq_self)
  have "push_bit 4 a + take_bit 4 b = push_bit 4 a OR take_bit 4 b"
    by (rule disjunctive_add) (simp add: bit_simps)
  then show ?thesis by (simp add: b push_bit_eq_mult mult.commute)
qed

lemma high_nibble:
  "a < 16 \<Longrightarrow> (ucast (push_bit 4 (of_nat a :: 32 word)) :: byte) = of_nat (16 * a)"
proof -
  assume a: "a < 16"
  have "push_bit 4 (of_nat a :: 32 word) = of_nat (16 * a)"
    by (simp add: push_bit_eq_mult)
  moreover have "(ucast (of_nat (16 * a) :: 32 word) :: byte) = of_nat (16 * a)"
    using a by (simp add: unsigned_of_nat take_bit_nat_eq_self del: of_nat_mult)
  ultimately show ?thesis by (simp only:)
qed

lemma low_nibble:
  "b < 16 \<Longrightarrow> (of_nat (16 * a) :: byte) OR ucast (of_nat b :: 32 word) = of_nat (16 * a + b)"
proof -
  assume b: "b < 16"
  have 1: "(ucast (of_nat b :: 32 word) :: byte) = of_nat b"
    using b by (simp add: unsigned_of_nat take_bit_nat_eq_self)
  show ?thesis
    unfolding 1 by (simp only: of_nat_or_eq [symmetric] nat_nibbles [OF b])
qed

lemma char_at_hex: "is_hex (char_at c m) \<Longrightarrow> m < length c"
  unfolding char_at_def is_hex_def NUL_def by (cases "m < length c") simp_all

lemma length_partial_hash [simp]: "length (partial_hash c i h) = length h"
  by (simp add: partial_hash_def)

lemma partial_hash_even:
  assumes "i < 2 * length h" "i mod 2 = 0" "is_hex (char_at c i)"
  shows "(partial_hash c i h)[i div 2 := ucast (push_bit 4 (of_nat (hex_value (char_at c i)) :: 32 word))]
           = partial_hash c (i + 1) h"
proof (rule nth_equalityI)
  show "length ((partial_hash c i h)[i div 2 := ucast (push_bit 4 (of_nat (hex_value (char_at c i)) :: 32 word))])
          = length (partial_hash c (i + 1) h)" by simp
next
  fix k assume "k < length ((partial_hash c i h)[i div 2 := ucast (push_bit 4 (of_nat (hex_value (char_at c i)) :: 32 word))])"
  then have k: "k < length h" by simp
  have ci: "char_at c i = c ! i" using char_at_hex [OF assms(3)] by (simp add: char_at_def)
  have hv: "hex_value (c ! i) < 16" using hex_value_less assms(3) ci by simp
  obtain q where q: "i = 2 * q" using assms(2) by auto
  have d: "i div 2 = q" using q by simp
  have ql: "q < length h" using assms(1) q by simp
  show "(partial_hash c i h)[i div 2 := ucast (push_bit 4 (of_nat (hex_value (char_at c i)) :: 32 word))] ! k
          = partial_hash c (i + 1) h ! k"
  proof (cases "k = q")
    case True
    then show ?thesis using ql hv
      by (simp add: d ci high_nibble) (simp add: partial_hash_def q)
  next
    case False
    then show ?thesis using k
      by (auto simp add: d partial_hash_def q)
  qed
qed

lemma partial_hash_odd:
  assumes "i < 2 * length h" "i mod 2 \<noteq> 0" "is_hex (char_at c i)"
  shows "(partial_hash c i h)[i div 2 := (partial_hash c i h ! (i div 2)) OR ucast (of_nat (hex_value (char_at c i)) :: 32 word)]
           = partial_hash c (i + 1) h"
proof (rule nth_equalityI)
  show "length ((partial_hash c i h)[i div 2 := (partial_hash c i h ! (i div 2)) OR ucast (of_nat (hex_value (char_at c i)) :: 32 word)])
          = length (partial_hash c (i + 1) h)" by simp
next
  fix k assume "k < length ((partial_hash c i h)[i div 2 := (partial_hash c i h ! (i div 2)) OR ucast (of_nat (hex_value (char_at c i)) :: 32 word)])"
  then have k: "k < length h" by simp
  have ci: "char_at c i = c ! i" using char_at_hex [OF assms(3)] by (simp add: char_at_def)
  have hv: "hex_value (c ! i) < 16" using hex_value_less assms(3) ci by simp
  obtain q where q: "i = 2 * q + 1" using assms(2) by (metis mod_2_eq_odd oddE parity_cases)
  have d: "i div 2 = q" using q by simp
  have ql: "q < length h" using assms(1) q by simp
  have old: "partial_hash c i h ! q = of_nat (16 * hex_value (c ! (2 * q)))"
    using ql by (simp add: partial_hash_def q)
  show "(partial_hash c i h)[i div 2 := (partial_hash c i h ! (i div 2)) OR ucast (of_nat (hex_value (char_at c i)) :: 32 word)] ! k
          = partial_hash c (i + 1) h ! k"
  proof (cases "k = q")
    case True
    have "(partial_hash c i h)[i div 2 := (partial_hash c i h ! (i div 2)) OR ucast (of_nat (hex_value (char_at c i)) :: 32 word)] ! k
            = (partial_hash c i h ! q) OR ucast (of_nat (hex_value (c ! i)) :: 32 word)"
      using ql True by (simp add: d ci)
    also have "\<dots> = of_nat (16 * hex_value (c ! (2 * q))) OR ucast (of_nat (hex_value (c ! i)) :: 32 word)"
      by (simp only: old)
    also have "\<dots> = of_nat (16 * hex_value (c ! (2 * q)) + hex_value (c ! i))"
      using hv by (rule low_nibble)
    also have "\<dots> = decoded_byte c q"
      by (simp only: decoded_byte_def q)
    also have "\<dots> = partial_hash c (i + 1) h ! k"
      using ql True by (simp add: partial_hash_def q)
    finally show ?thesis .
  next
    case False
    then show ?thesis using k
      by (auto simp add: d partial_hash_def q)
  qed
qed

lemma decode_hash_loop:
  "i \<le> 2 * length h \<Longrightarrow> \<forall>m<i. is_hex (char_at c m) \<Longrightarrow>
   decode_hash c i (partial_hash c i h) =
     (if \<forall>m < 2 * length h. is_hex (char_at c m) then Some (partial_hash c (2 * length h) h) else None)"
proof (induction "2 * length h - i" arbitrary: i)
  case 0
  then have i: "i = 2 * length h" by simp
  show ?case using 0(3) unfolding i
    by (subst decode_hash.simps) simp
next
  case (Suc n)
  then have i: "i < 2 * length h" by simp
  show ?case
  proof (cases "is_hex (char_at c i)")
    case False
    then have "hex_digit (char_at c i) = None" by (simp add: hex_digit_None)
    moreover have "\<not> (\<forall>m < 2 * length h. is_hex (char_at c m))" using False i by blast
    ultimately show ?thesis using i
      by (subst decode_hash.simps) simp
  next
    case True
    have "\<forall>m<i + 1. is_hex (char_at c m)" using True Suc.prems(2) less_Suc_eq by auto
    then have IH: "decode_hash c (i + 1) (partial_hash c (i + 1) h) =
       (if \<forall>m < 2 * length h. is_hex (char_at c m) then Some (partial_hash c (2 * length h) h) else None)"
      using Suc.hyps(1) [of "i + 1"] Suc.hyps(2) i by simp
    have "decode_hash c i (partial_hash c i h) = decode_hash c (i + 1) (partial_hash c (i + 1) h)"
      using i True
      by (subst decode_hash.simps)
         (simp add: hex_digit_is_hex partial_hash_even partial_hash_odd mult.commute)
    then show ?thesis using IH by simp
  qed
qed

lemma partial_hash_0: "partial_hash c 0 h = h"
  by (simp add: partial_hash_def map_nth)

lemma partial_hash_full: "partial_hash c (2 * length h) h = map (decoded_byte c) [0..<length h]"
  by (simp add: partial_hash_def)

lemma all_char_at_hex:
  "(\<forall>m < n. is_hex (char_at c m)) = (n \<le> length c \<and> (\<forall>m < n. is_hex (c ! m)))"
proof
  assume a: "\<forall>m < n. is_hex (char_at c m)"
  have "n \<le> length c"
  proof (rule ccontr)
    assume "\<not> n \<le> length c"
    then have "is_hex (char_at c (length c))" using a by simp
    then show False using char_at_hex by blast
  qed
  then show "n \<le> length c \<and> (\<forall>m < n. is_hex (c ! m))"
    using a by (auto simp: char_at_def)
next
  assume "n \<le> length c \<and> (\<forall>m < n. is_hex (c ! m))"
  then show "\<forall>m < n. is_hex (char_at c m)" by (auto simp: char_at_def)
qed

lemma decode_hash_eq:
  "decode_hash c 0 h =
     (if 2 * length h \<le> length c \<and> (\<forall>m < 2 * length h. is_hex (c ! m))
      then Some (map (decoded_byte c) [0..<length h]) else None)"
  using decode_hash_loop [of 0 h c] by (simp add: partial_hash_0 partial_hash_full all_char_at_hex)




lemma hex_pairs_decoded:
  "2 * n \<le> length c \<Longrightarrow> map (decoded_byte c) [0..<n] = hex_pairs (take (2 * n) c)"
proof (induction n arbitrary: c)
  case 0
  then show ?case by simp
next
  case (Suc n)
  then obtain a b cs where c: "c = a # b # cs"
    by (cases c; cases "tl c") auto
  have "map (decoded_byte c) [0..<Suc n] = decoded_byte c 0 # map (\<lambda>k. decoded_byte c (Suc k)) [0..<n]"
    by (simp only: map_upt_Suc)
  also have "(\<lambda>k. decoded_byte c (Suc k)) = decoded_byte cs"
    by (rule ext) (simp add: decoded_byte_def c)
  also have "map (decoded_byte cs) [0..<n] = hex_pairs (take (2 * n) cs)"
    using Suc.IH [of cs] Suc.prems c by simp
  finally show ?case by (simp add: c decoded_byte_def)
qed

lemma all_hex_take:
  "n \<le> length c \<Longrightarrow> (\<forall>m < n. is_hex (c ! m)) = list_all is_hex (take n c)"
  by (auto simp: list_all_length)

lemma decode_hash_pairs:
  "decode_hash c 0 h =
     (if 2 * length h \<le> length c \<and> list_all is_hex (take (2 * length h) c)
      then Some (hex_pairs (take (2 * length h) c)) else None)"
  using all_hex_take [of "2 * length h" c] hex_pairs_decoded [of "length h" c]
  by (auto simp add: decode_hash_eq)

section \<open>FillSetDetails\<close>

lemma count_file_fields [simp]:
  "name (count_file r this) = name this"
  "description (count_file r this) = description this"
  "shortname (count_file r this) = shortname this"
  "version (count_file r this) = version this"
  "fallback (count_file r this) = fallback this"
  "files (count_file r this) = files this"
  "next_ptr (count_file r this) = next_ptr this"
  by (cases r; simp add: count_file_def)+

lemma count_file_counters:
  "valid_files (count_file r this) = valid_files this + (if r = CR_MATCH then 1 else 0)"
  "found_files (count_file r this) = found_files this + (if r = CR_NO_FILE then 0 else 1)"
  by (cases r; simp add: count_file_def)+

lemma fill_file_Inr:
  assumes "fill_file check file_names fs md5s origin path allow i this = Inr s"
  obtains
    (unlisted) item where "find_item fs (file_names ! i) = Some item" "item_value item = None" "allow"
      "s = this\<lparr>files := (files this)[i := (files this ! i)\<lparr>filename := None\<rparr>],
                 valid_files := valid_files this + 1, found_files := found_files this + 1\<rparr>"
  | (listed) item fname m c h w where "find_item fs (file_names ! i) = Some item"
      "item_value item = Some fname" "find_item md5s fname = Some m" "item_value m = Some c"
      "decode_hash c 0 (hash (files this ! i)) = Some h" "origin_warning origin fname = Inr w"
      "s = count_file (check \<lparr>filename = Some (path @ fname), hash = h, missing_warning = Some w\<rparr>)
             (this\<lparr>files := (files this)[i := \<lparr>filename = Some (path @ fname), hash = h,
                                                  missing_warning = Some w\<rparr>]\<rparr>)"
  using assms unfolding fill_file_def
  by (auto simp: Let_def split: option.splits sum.splits if_splits)

text \<open>What one round of the loop over the files leaves as it was.\<close>
lemma fill_file_fields:
  assumes "fill_file check file_names fs md5s origin path allow i this = Inr s"
  shows "name s = name this" "description s = description this" "shortname s = shortname this"
    "version s = version this" "fallback s = fallback this" "next_ptr s = next_ptr this"
    "length (files s) = length (files this)"
    "\<And>k. k \<noteq> i \<Longrightarrow> files s ! k = files this ! k"
  using assms by (auto elim!: fill_file_Inr)

lemma fill_file_counters:
  assumes "fill_file check file_names fs md5s origin path allow i this = Inr s"
    and "valid_files this \<le> found_files this"
  shows "valid_files s \<le> found_files s" "found_files s \<le> found_files this + 1"
  using assms by (auto elim!: fill_file_Inr simp: count_file_counters)

lemma files_loop_fields:
  "files_loop check file_names fs md5s origin path allow i this = Inr s \<Longrightarrow>
   name s = name this \<and> description s = description this \<and> shortname s = shortname this \<and>
   version s = version this \<and> fallback s = fallback this \<and> next_ptr s = next_ptr this \<and>
   length (files s) = length (files this)"
proof (induction check file_names fs md5s origin path allow i this rule: files_loop.induct)
  case (1 check file_names fs md5s origin path allow i this)
  show ?case
  proof (cases "i < length file_names")
    case False
    then show ?thesis using "1.prems" by (simp add: files_loop.simps)
  next
    case True
    then obtain t where t: "fill_file check file_names fs md5s origin path allow i this = Inr t"
      and l: "files_loop check file_names fs md5s origin path allow (i + 1) t = Inr s"
      using "1.prems" by (subst (asm) files_loop.simps) (auto split: sum.splits)
    show ?thesis
      using "1.IH" [OF True t l] fill_file_fields [OF t] by simp
  qed
qed

lemma files_loop_counters:
  "files_loop check file_names fs md5s origin path allow i this = Inr s \<Longrightarrow>
   valid_files this \<le> found_files this \<Longrightarrow> found_files this \<le> i \<Longrightarrow> i \<le> length file_names \<Longrightarrow>
   valid_files s \<le> found_files s \<and> found_files s \<le> length file_names"
proof (induction check file_names fs md5s origin path allow i this rule: files_loop.induct)
  case (1 check file_names fs md5s origin path allow i this)
  show ?case
  proof (cases "i < length file_names")
    case False
    then show ?thesis using "1.prems" by (simp add: files_loop.simps)
  next
    case True
    then obtain t where t: "fill_file check file_names fs md5s origin path allow i this = Inr t"
      and l: "files_loop check file_names fs md5s origin path allow (i + 1) t = Inr s"
      using "1.prems"(1) by (subst (asm) files_loop.simps) (auto split: sum.splits)
    have "valid_files t \<le> found_files t" "found_files t \<le> i + 1"
      using fill_file_counters [OF t "1.prems"(2)] "1.prems"(3) by simp_all
    then show ?thesis
      using "1.IH" [OF True t l] True by simp
  qed
qed




lemma fetch_metadata_present: "(fetch_metadata md n \<noteq> None) = field_present md n"
  by (simp add: fetch_metadata_def field_present_def StrEmpty_def split: option.splits)

lemma fill_fallback_Inr:
  "fill_fallback md this = Inr s \<Longrightarrow>
   s = this\<lparr>fallback := (case find_item md ''fallback'' of None \<Rightarrow> False
        | Some item \<Rightarrow> item_value item \<noteq> Some ''0'' \<and> item_value item \<noteq> Some ''false'')\<rparr>"
  unfolding fill_fallback_def by (auto split: option.splits)


lemma fill_metadata_Inr:
  assumes "fill_metadata md this = Inr s"
  shows "field_present md ''name'' \<and> field_present md ''description'' \<and>
         field_present md ''shortname'' \<and> field_present md ''version''"
    and "fallback s = (case find_item md ''fallback'' of None \<Rightarrow> False
        | Some item \<Rightarrow> item_value item \<noteq> Some ''0'' \<and> item_value item \<noteq> Some ''false'')"
    and "files s = files this" and "found_files s = found_files this"
    and "valid_files s = valid_files this" and "next_ptr s = next_ptr this"
proof -
  from assms obtain i1 v1 where 1: "fetch_metadata md ''name'' = Some i1"
    and d: "fill_description md (this\<lparr>name := v1\<rparr>) = Inr s"
    unfolding fill_metadata_def by (auto split: option.splits sum.splits)
  from d obtain i2 dd where 2: "fetch_metadata md ''description'' = Some i2"
    and sn: "fill_shortname md (this\<lparr>name := v1, description := dd\<rparr>) = Inr s"
    unfolding fill_description_def by (auto split: option.splits sum.splits)
  from sn obtain i3 w where 3: "fetch_metadata md ''shortname'' = Some i3"
    and v: "fill_version md (this\<lparr>name := v1, description := dd, shortname := w\<rparr>) = Inr s"
    unfolding fill_shortname_def by (auto split: option.splits sum.splits)
  from v obtain i4 n where 4: "fetch_metadata md ''version'' = Some i4"
    and f: "fill_fallback md (this\<lparr>name := v1, description := dd, shortname := w, version := n\<rparr>) = Inr s"
    unfolding fill_version_def by (auto split: option.splits sum.splits)
  show "field_present md ''name'' \<and> field_present md ''description'' \<and>
         field_present md ''shortname'' \<and> field_present md ''version''"
    using 1 2 3 4 by (simp flip: fetch_metadata_present)
  show "fallback s = (case find_item md ''fallback'' of None \<Rightarrow> False
        | Some item \<Rightarrow> item_value item \<noteq> Some ''0'' \<and> item_value item \<noteq> Some ''false'')"
    "files s = files this" "found_files s = found_files this"
    "valid_files s = valid_files this" "next_ptr s = next_ptr this"
    using fill_fallback_Inr [OF f] by simp_all
qed


lemma add_translations_not_False: "add_translations items d \<noteq> Inl ReturnsFalse"
  by (induction items arbitrary: d) (auto simp: xstrdup_def split: option.splits)


lemma leading_digits_any:
  "length h = 16 \<Longrightarrow> (decode_hash c 0 h \<noteq> None) = leading_digits c"
  by (simp add: leading_digits_def decode_hash_pairs)



lemma fill_file_Inr_slot_ok:
  assumes "fill_file check file_names fs md5s origin path allow i this = Inr s"
    and "length (hash (files this ! i)) = 16"
  shows "slot_ok leading_digits fs md5s allow (file_names ! i)"
  using assms(1)
proof (cases rule: fill_file_Inr)
  case (unlisted item)
  then show ?thesis by (simp add: slot_ok_def)
next
  case (listed item fname m c h w)
  then show ?thesis using leading_digits_any [OF assms(2), of c] by (simp add: slot_ok_def)
qed


lemma files_loop_Inr_slots:
  "files_loop check file_names fs md5s origin path allow i this = Inr s \<Longrightarrow>
   \<forall>k. i \<le> k \<and> k < length file_names \<longrightarrow> length (hash (files this ! k)) = 16 \<Longrightarrow>
   \<forall>k. i \<le> k \<and> k < length file_names \<longrightarrow> slot_ok leading_digits fs md5s allow (file_names ! k)"
proof (induction check file_names fs md5s origin path allow i this rule: files_loop.induct)
  case (1 check file_names fs md5s origin path allow i this)
  show ?case
  proof (cases "i < length file_names")
    case False
    then show ?thesis by auto
  next
    case True
    then obtain t where t: "fill_file check file_names fs md5s origin path allow i this = Inr t"
      and l: "files_loop check file_names fs md5s origin path allow (i + 1) t = Inr s"
      using "1.prems"(1) by (subst (asm) files_loop.simps) (auto split: sum.splits)
    have here: "slot_ok leading_digits fs md5s allow (file_names ! i)"
      using fill_file_Inr_slot_ok [OF t] "1.prems"(2) True by simp
    have "\<forall>k. i + 1 \<le> k \<and> k < length file_names \<longrightarrow> length (hash (files t ! k)) = 16"
      using fill_file_fields(8) [OF t] "1.prems"(2) by simp
    then have rest: "\<forall>k. i + 1 \<le> k \<and> k < length file_names \<longrightarrow> slot_ok leading_digits fs md5s allow (file_names ! k)"
      using "1.IH" [OF True t l] by simp
    show ?thesis
    proof (intro allI impI)
      fix k assume k: "i \<le> k \<and> k < length file_names"
      show "slot_ok leading_digits fs md5s allow (file_names ! k)"
      proof (cases "k = i")
        case True then show ?thesis using here by simp
      next
        case False then show ?thesis using rest k by simp
      qed
    qed
  qed
qed


lemma zero_set_hash: "k < n \<Longrightarrow> length (hash (files (zero_set n) ! k)) = 16"
  by (simp add: zero_set_def zero_file_def)

lemma FillSetDetails_Inr_ok:
  assumes "FillSetDetails check file_names ini path full_filename allow = Inr s"
  shows "manifest_ok leading_digits ini allow file_names"
proof -
  from assms obtain md t where md: "find_group ini ''metadata'' = Some md"
    and t: "fill_metadata md (zero_set (length file_names)) = Inr t"
    and l: "files_loop check file_names (get_group ini ''files'') (get_group ini ''md5s'')
              (get_group ini ''origin'') path allow 0 t = Inr s"
    unfolding FillSetDetails_def by (auto split: option.splits sum.splits)
  have "\<forall>k. 0 \<le> k \<and> k < length file_names \<longrightarrow> length (hash (files t ! k)) = 16"
    using fill_metadata_Inr(3) [OF t] zero_set_hash by simp
  then have "\<forall>k. 0 \<le> k \<and> k < length file_names \<longrightarrow>
      slot_ok leading_digits (get_group ini ''files'') (get_group ini ''md5s'') allow (file_names ! k)"
    by (rule files_loop_Inr_slots [OF l])
  then have "list_all (slot_ok leading_digits (get_group ini ''files'') (get_group ini ''md5s'') allow) file_names"
    by (simp add: list_all_length)
  then show ?thesis
    using md fill_metadata_Inr(1) [OF t] by (simp add: manifest_ok_def)
qed


lemma uncounted_simps [simp]:
  "uncounted (s\<lparr>valid_files := a\<rparr>) = uncounted s"
  "uncounted (s\<lparr>found_files := b\<rparr>) = uncounted s"
  "uncounted (s\<lparr>files := X\<rparr>) = (uncounted s)\<lparr>files := X\<rparr>"
  "files (uncounted s) = files s"
  by (simp_all add: uncounted_def)

lemma uncounted_count_file [simp]: "uncounted (count_file r t) = uncounted t"
  by (cases r) (simp_all add: count_file_def)




text \<open>Where the values are given, no \<open>NULL\<close> reaches \<open>strcmp\<close> or \<open>xstrdup\<close>.\<close>

lemma find_item_mem: "find_item g n = Some item \<Longrightarrow> item \<in> set g \<and> item_name item = n"
  by (auto simp: find_item_def find_Some_iff)

lemma fetch_metadata_value: "fetch_metadata md n = Some item \<Longrightarrow> \<exists>v. item_value item = Some v"
  by (auto simp: fetch_metadata_def StrEmpty_def split: option.splits if_splits)

lemma add_translations_given:
  "list_all (\<lambda>item. take 12 (item_name item) = ''description.'' \<longrightarrow> item_value item \<noteq> None) items \<Longrightarrow>
   add_translations items d \<noteq> Inl UndefinedBehaviour"
  by (induction items arbitrary: d) (auto simp: xstrdup_def split: option.splits)

lemma fill_fallback_given:
  assumes "list_all (\<lambda>item. item_name item = ''fallback'' \<longrightarrow> item_value item \<noteq> None) md"
  shows "fill_fallback md this \<noteq> Inl UndefinedBehaviour"
proof (cases "find_item md ''fallback''")
  case None
  then show ?thesis by (simp add: fill_fallback_def)
next
  case (Some item)
  then have "item \<in> set md" "item_name item = ''fallback''" using find_item_mem by blast+
  then have "item_value item \<noteq> None" using assms by (simp add: list_all_iff)
  then show ?thesis using Some by (auto simp: fill_fallback_def)
qed

lemma fill_version_given:
  assumes "list_all (\<lambda>item. item_name item = ''fallback'' \<longrightarrow> item_value item \<noteq> None) md"
  shows "fill_version md this \<noteq> Inl UndefinedBehaviour"
  using fill_fallback_given [OF assms] fetch_metadata_value [of md "''version''"]
  by (auto simp: fill_version_def split: option.splits)

lemma fill_shortname_given:
  assumes "list_all (\<lambda>item. item_name item = ''fallback'' \<longrightarrow> item_value item \<noteq> None) md"
  shows "fill_shortname md this \<noteq> Inl UndefinedBehaviour"
  using fill_version_given [OF assms] fetch_metadata_value [of md "''shortname''"]
  by (auto simp: fill_shortname_def split: option.splits)

lemma fill_description_given:
  assumes "list_all (\<lambda>item. item_name item = ''fallback'' \<longrightarrow> item_value item \<noteq> None) md"
    and "list_all (\<lambda>item. take 12 (item_name item) = ''description.'' \<longrightarrow> item_value item \<noteq> None) md"
  shows "fill_description md this \<noteq> Inl UndefinedBehaviour"
proof (cases "fetch_metadata md ''description''")
  case None
  then show ?thesis by (simp add: fill_description_def)
next
  case (Some item)
  then obtain v where v: "item_value item = Some v" using fetch_metadata_value by blast
  show ?thesis
  proof (cases "add_translations md ((description this)([] \<mapsto> v))")
    case (Inl e)
    then have "e = ReturnsFalse" using add_translations_given [OF assms(2)] by (cases e) auto
    then show ?thesis using Inl add_translations_not_False by blast
  next
    case (Inr d)
    then show ?thesis
      using Some v fill_shortname_given [OF assms(1)] by (simp add: fill_description_def xstrdup_def)
  qed
qed

lemma fill_metadata_given:
  assumes "list_all (\<lambda>item. item_name item = ''fallback'' \<or> take 12 (item_name item) = ''description.''
                       \<longrightarrow> item_value item \<noteq> None) md"
  shows "fill_metadata md this \<noteq> Inl UndefinedBehaviour"
proof -
  have 1: "list_all (\<lambda>item. item_name item = ''fallback'' \<longrightarrow> item_value item \<noteq> None) md"
    and 2: "list_all (\<lambda>item. take 12 (item_name item) = ''description.'' \<longrightarrow> item_value item \<noteq> None) md"
    using assms by (simp_all add: list_all_iff)
  show ?thesis
  proof (cases "fetch_metadata md ''name''")
    case None
    then show ?thesis by (simp add: fill_metadata_def)
  next
    case (Some item)
    then obtain v where "item_value item = Some v" using fetch_metadata_value by blast
    then show ?thesis
      using Some fill_description_given [OF 1 2] by (simp add: fill_metadata_def xstrdup_def)
  qed
qed

lemma origin_warning_given:
  assumes "list_all (\<lambda>item. item_value item \<noteq> None) origin"
  shows "\<exists>w. origin_warning origin fname = Inr w"
proof -
  have "\<And>n item. find_item origin n = Some item \<Longrightarrow> \<exists>v. item_value item = Some v"
    using assms find_item_mem by (fastforce simp: list_all_iff)
  then show ?thesis
    unfolding origin_warning_def xstrdup_def by (fastforce split: option.splits)
qed

lemma fill_file_given:
  assumes "list_all (\<lambda>item. item_value item \<noteq> None) origin"
  shows "fill_file check file_names fs md5s origin path allow i this \<noteq> Inl UndefinedBehaviour"
proof
  assume a: "fill_file check file_names fs md5s origin path allow i this = Inl UndefinedBehaviour"
  have "origin_warning origin fname \<noteq> Inl e" for fname e
    using origin_warning_given [OF assms, of fname] by auto
  with a show False
    unfolding fill_file_def
    by (auto simp: Let_def split: option.splits sum.splits if_splits)
qed

lemma files_loop_given:
  "list_all (\<lambda>item. item_value item \<noteq> None) origin \<Longrightarrow>
   files_loop check file_names fs md5s origin path allow i this \<noteq> Inl UndefinedBehaviour"
proof (induction check file_names fs md5s origin path allow i this rule: files_loop.induct)
  case (1 check file_names fs md5s origin path allow i this)
  show ?case
  proof (cases "i < length file_names")
    case False
    then show ?thesis by (simp add: files_loop.simps)
  next
    case True
    show ?thesis
    proof (cases "fill_file check file_names fs md5s origin path allow i this")
      case (Inl e)
      then have "e = ReturnsFalse"
        using fill_file_given [OF "1.prems", of check file_names fs md5s path allow i this]
        by (cases e) auto
      then show ?thesis using Inl True by (simp add: files_loop.simps)
    next
      case (Inr t)
      then show ?thesis using "1.IH" [OF True Inr "1.prems"] True by (simp add: files_loop.simps)
    qed
  qed
qed

lemma FillSetDetails_given:
  assumes "values_given ini"
  shows "FillSetDetails check file_names ini path full_filename allow \<noteq> Inl UndefinedBehaviour"
proof (cases "find_group ini ''metadata''")
  case None
  then show ?thesis by (simp add: FillSetDetails_def)
next
  case (Some md)
  then have "get_group ini ''metadata'' = md" by (simp add: get_group_def)
  then have g: "list_all (\<lambda>item. item_name item = ''fallback'' \<or> take 12 (item_name item) = ''description.''
                       \<longrightarrow> item_value item \<noteq> None) md"
    and o: "list_all (\<lambda>item. item_value item \<noteq> None) (get_group ini ''origin'')"
    using assms by (simp_all add: values_given_def)
  show ?thesis
  proof (cases "fill_metadata md (zero_set (length file_names))")
    case (Inl e)
    then have "e = ReturnsFalse" using fill_metadata_given [OF g] by (cases e) auto
    then show ?thesis using Inl Some by (simp add: FillSetDetails_def)
  next
    case (Inr t)
    then show ?thesis using Some files_loop_given [OF o] by (simp add: FillSetDetails_def)
  qed
qed



lemma slot_ok_listed:
  "slot_ok leading_digits fs md5s allow slot \<Longrightarrow> find_item fs slot = Some item \<Longrightarrow> item_value item = Some fname \<Longrightarrow>
   find_item md5s fname = Some m \<Longrightarrow> item_value m = Some c \<Longrightarrow> leading_digits c"
  by (simp add: slot_ok_def)

section \<open>The claims on the checksum decoder and on FillSetDetails\<close>

text \<open>
  Claim C4, as amended.  The decoder reads the first \<open>2 * N\<close> characters of its input,
  where \<open>N\<close> is the size of the hash: when the input has at least \<open>2 * N\<close> characters
  and the first \<open>2 * N\<close> are hexadecimal digits, decoding succeeds and every pair of
  digits gives one byte, the high nibble first; when the input is shorter or one of the
  first \<open>2 * N\<close> characters is no hexadecimal digit, decoding fails.  What follows the
  first \<open>2 * N\<close> characters is not read.  A manifest that \<open>FillSetDetails\<close> accepts has
  32 leading hexadecimal digits in the checksum of every file it lists, so a checksum
  that fails to decode rejects the manifest.
\<close>
theorem decode_hash_leading_digits:
  "decode_hash c 0 h =
     (if 2 * length h \<le> length c \<and> list_all is_hex (take (2 * length h) c)
      then Some (hex_pairs (take (2 * length h) c)) else None) \<and>
   (FillSetDetails check file_names ini path full_filename allow = Inr s \<longrightarrow>
    list_all (\<lambda>slot. \<forall>item fname m md5. find_item (get_group ini ''files'') slot = Some item \<longrightarrow>
        item_value item = Some fname \<longrightarrow> find_item (get_group ini ''md5s'') fname = Some m \<longrightarrow>
        item_value m = Some md5 \<longrightarrow> 32 \<le> length md5 \<and> list_all is_hex (take 32 md5)) file_names)"
proof (intro conjI impI)
  show "decode_hash c 0 h =
     (if 2 * length h \<le> length c \<and> list_all is_hex (take (2 * length h) c)
      then Some (hex_pairs (take (2 * length h) c)) else None)"
    by (rule decode_hash_pairs)
next
  assume "FillSetDetails check file_names ini path full_filename allow = Inr s"
  then have "manifest_ok leading_digits ini allow file_names" by (rule FillSetDetails_Inr_ok)
  then have "list_all (slot_ok leading_digits (get_group ini ''files'') (get_group ini ''md5s'') allow) file_names"
    by (simp add: manifest_ok_def split: option.splits)
  then have ok: "\<forall>slot \<in> set file_names. slot_ok leading_digits (get_group ini ''files'') (get_group ini ''md5s'') allow slot"
    by (simp add: list_all_iff)
  show "list_all (\<lambda>slot. \<forall>item fname m md5. find_item (get_group ini ''files'') slot = Some item \<longrightarrow>
        item_value item = Some fname \<longrightarrow> find_item (get_group ini ''md5s'') fname = Some m \<longrightarrow>
        item_value m = Some md5 \<longrightarrow> 32 \<le> length md5 \<and> list_all is_hex (take 32 md5)) file_names"
  proof (subst list_all_iff, intro ballI allI impI)
    fix slot item fname m md5
    assume "slot \<in> set file_names" "find_item (get_group ini ''files'') slot = Some item"
      "item_value item = Some fname" "find_item (get_group ini ''md5s'') fname = Some m"
      "item_value m = Some md5"
    then have "leading_digits md5" using ok slot_ok_listed by blast
    then show "32 \<le> length md5 \<and> list_all is_hex (take 32 md5)" by (simp add: leading_digits_def)
  qed
qed

text \<open>
  The example of the claim, \<open>FF00\<close> for a hash of two bytes, a string that is too short,
  a string with a character outside the alphabet, the example manifest with a checksum
  of 31 digits, which is rejected, and the example manifest itself, which is accepted and
  has 32 digits.
\<close>

theorem decode_hash_leading_digits_witness:
  "decode_hash ''FF00'' 0 [0, 0] = Some [0xFF, 0x00] \<and>
   decode_hash ''FF0'' 0 [0, 0] = None \<and>
   decode_hash ''FG00'' 0 [0, 0] = None \<and>
   map_sum id name (example_fill CR_MATCH example_metadata ''b04ce593d8c5016e07473a743d7d335'') = Inl ReturnsFalse \<and>
   \<not> isl (example_fill CR_MATCH example_metadata example_md5) \<and>
   32 \<le> length example_md5 \<and> list_all is_hex (take 32 example_md5)"
proof -
  have 1: "decode_hash ''FF00'' 0 [0, 0] = Some [0xFF, 0x00]"
    using decode_hash_leading_digits [of "''FF00''" "[0, 0]"] by (simp add: is_hex_def hex_value_def)
  have 2: "decode_hash ''FF0'' 0 [0, 0] = None"
    using decode_hash_leading_digits [of "''FF0''" "[0, 0]"] by simp
  have 3: "decode_hash ''FG00'' 0 [0, 0] = None"
    using decode_hash_leading_digits [of "''FG00''" "[0, 0]"] by (simp add: is_hex_def)
  have 4: "map_sum id name (example_fill CR_MATCH example_metadata ''b04ce593d8c5016e07473a743d7d335'') = Inl ReturnsFalse"
    by code_simp
  have 5: "\<not> isl (example_fill CR_MATCH example_metadata example_md5)"
    by code_simp
  then obtain s where s: "example_fill CR_MATCH example_metadata example_md5 = Inr s"
    by (cases "example_fill CR_MATCH example_metadata example_md5") auto
  let ?ini = "example_ini example_metadata example_md5"
  have f: "find_item (get_group ?ini ''files'') ''base''
             = Some \<lparr>item_name = ''base'', item_value = Some ''trg1r.grf''\<rparr>"
    "find_item (get_group ?ini ''md5s'') ''trg1r.grf''
             = Some \<lparr>item_name = ''trg1r.grf'', item_value = Some example_md5\<rparr>"
    by (simp_all add: example_ini_def get_group_def find_group_def find_item_def)
  have 6: "32 \<le> length example_md5 \<and> list_all is_hex (take 32 example_md5)"
    using decode_hash_leading_digits [of "[]" "[]" "\<lambda>file. CR_MATCH" example_file_names ?ini
        "''data/''" example_filename True s] s f
    by (simp add: example_fill_def example_file_names_def)
  show ?thesis using 1 2 3 4 5 6 by simp
qed

text \<open>
  Claim C4 as stated fails for an input that is longer than \<open>2 * N\<close> characters and has
  characters outside the alphabet behind the first \<open>2 * N\<close>: the 32 digits of the example
  checksum followed by \<open>-junk\<close> decode to the 16 bytes of the digits, and the manifest
  with that checksum is accepted.
\<close>

theorem decode_hash_longer_counterexample:
  "length (example_md5 @ ''-junk'') \<noteq> 2 * length (replicate 16 (0::byte)) \<and>
   \<not> list_all is_hex (example_md5 @ ''-junk'') \<and>
   decode_hash (example_md5 @ ''-junk'') 0 (replicate 16 0) =
     Some [0xb0, 0x4c, 0xe5, 0x93, 0xd8, 0xc5, 0x01, 0x6e, 0x07, 0x47, 0x3a, 0x74, 0x3d, 0x7d, 0x33, 0x58] \<and>
   \<not> isl (example_fill CR_MATCH example_metadata (example_md5 @ ''-junk''))"
  by code_simp

text \<open>
  Claim C5, as amended.  The fallback flag of the descriptor that \<open>FillSetDetails\<close>
  returns is false when the metadata group has no item \<open>fallback\<close>; when it has one, the
  flag is false if the value is the string \<open>0\<close> or the string \<open>false\<close> and true for
  every other value.
\<close>
theorem FillSetDetails_fallback:
  assumes "FillSetDetails check file_names ini path full_filename allow = Inr s"
  shows "fallback s =
     (case find_item (get_group ini ''metadata'') ''fallback'' of
        None \<Rightarrow> False
      | Some item \<Rightarrow> item_value item \<noteq> Some ''0'' \<and> item_value item \<noteq> Some ''false'')"
proof -
  from assms obtain md t where md: "find_group ini ''metadata'' = Some md"
    and t: "fill_metadata md (zero_set (length file_names)) = Inr t"
    and l: "files_loop check file_names (get_group ini ''files'') (get_group ini ''md5s'')
              (get_group ini ''origin'') path allow 0 t = Inr s"
    unfolding FillSetDetails_def by (auto split: option.splits sum.splits)
  have "fallback s = fallback t" using files_loop_fields [OF l] by simp
  then show ?thesis using fill_metadata_Inr(2) [OF t] md by (simp add: get_group_def)
qed

text \<open>The example manifest with \<open>fallback = false\<close> and with \<open>fallback = 1\<close>.\<close>

theorem FillSetDetails_fallback_witness:
  "map_sum id fallback (example_fill CR_MATCH (example_metadata @ [\<lparr>item_name = ''fallback'', item_value = Some ''false''\<rparr>]) example_md5) = Inr False \<and>
   map_sum id fallback (example_fill CR_MATCH (example_metadata @ [\<lparr>item_name = ''fallback'', item_value = Some ''1''\<rparr>]) example_md5) = Inr True"
proof -
  let ?f = "\<lambda>v. example_fill CR_MATCH (example_metadata @ [\<lparr>item_name = ''fallback'', item_value = Some v\<rparr>]) example_md5"
  have a: "\<not> isl (?f ''false'')" by code_simp
  have b: "\<not> isl (?f ''1'')" by code_simp
  from a obtain s where s: "?f ''false'' = Inr s" by (cases "?f ''false''") auto
  from b obtain t where t: "?f ''1'' = Inr t" by (cases "?f ''1''") auto
  have "fallback s = False"
    using FillSetDetails_fallback [OF s [unfolded example_fill_def]]
    by (simp add: example_ini_def example_metadata_def get_group_def find_group_def find_item_def)
  moreover have "fallback t = True"
    using FillSetDetails_fallback [OF t [unfolded example_fill_def]]
    by (simp add: example_ini_def example_metadata_def get_group_def find_group_def find_item_def)
  ultimately show ?thesis using s t by simp
qed

text \<open>
  Claim C5 as stated fails for the example manifest, which has no item \<open>fallback\<close>: the
  flag of the descriptor is false.
\<close>

theorem fallback_default_counterexample:
  "find_item example_metadata ''fallback'' = None \<and>
   map_sum id fallback (example_fill CR_MATCH example_metadata example_md5) = Inr False"
  by code_simp



text \<open>
  Claim C10.  After every successful \<open>FillSetDetails\<close> the counters satisfy
  \<open>0 \<le> valid_files \<le> found_files \<le> Tnum_files\<close>, where \<open>Tnum_files\<close> is the number of
  file slots, which is also the length of the file table.
\<close>
theorem FillSetDetails_counters:
  assumes "FillSetDetails check file_names ini path full_filename allow = Inr s"
  shows "0 \<le> valid_files s \<and> valid_files s \<le> found_files s \<and>
         found_files s \<le> length file_names \<and> length (files s) = length file_names"
proof -
  from assms obtain md t where md: "find_group ini ''metadata'' = Some md"
    and t: "fill_metadata md (zero_set (length file_names)) = Inr t"
    and l: "files_loop check file_names (get_group ini ''files'') (get_group ini ''md5s'')
              (get_group ini ''origin'') path allow 0 t = Inr s"
    unfolding FillSetDetails_def by (auto split: option.splits sum.splits)
  have z: "valid_files t = 0" "found_files t = 0" "length (files t) = length file_names"
    using fill_metadata_Inr(3,4,5) [OF t] by (simp_all add: zero_set_def)
  have "valid_files s \<le> found_files s \<and> found_files s \<le> length file_names"
    using files_loop_counters [OF l] z by simp
  moreover have "length (files s) = length file_names"
    using files_loop_fields [OF l] z by simp
  ultimately show ?thesis by simp
qed

text \<open>
  The example manifest with a check that reports a mismatch: the empty slot counts for
  both counters, the mismatched file for \<open>found_files\<close> alone.
\<close>

theorem FillSetDetails_counters_witness:
  "map_sum id (\<lambda>s. (valid_files s, found_files s, length (files s)))
     (example_fill CR_MISMATCH example_metadata example_md5) = Inr (1, 2, 2)"
proof -
  have e: "map_sum id (\<lambda>s. (valid_files s, found_files s, length (files s)))
     (example_fill CR_MISMATCH example_metadata example_md5) = Inr (1, 2, 2)"
    by code_simp
  then obtain s where s: "example_fill CR_MISMATCH example_metadata example_md5 = Inr s"
    by (cases "example_fill CR_MISMATCH example_metadata example_md5") auto
  have "valid_files s \<le> found_files s \<and> found_files s \<le> length example_file_names"
    using FillSetDetails_counters [OF s [unfolded example_fill_def]] by simp
  then show ?thesis using e by simp
qed

section \<open>Lists in the store\<close>

lemma path_append:
  "next_path h q (xs @ ys) r = (\<exists>u. next_path h q xs u \<and> next_path h u ys r)"
  by (induction xs arbitrary: q) (auto split: option.splits)

lemma path_allocated: "next_path h q as r \<Longrightarrow> a \<in> set as \<Longrightarrow> h a \<noteq> None"
  by (induction as arbitrary: q) (auto split: option.splits)

lemma path_upd_other: "a \<notin> set as \<Longrightarrow> next_path (h(a \<mapsto> s)) q as r = next_path h q as r"
  by (induction as arbitrary: q) (auto split: option.splits)

lemma chain_upd_other: "a \<notin> set as \<Longrightarrow> chain (h(a \<mapsto> s)) q as = chain h q as"
  by (simp add: chain_def path_upd_other)

lemma chain_Nil [simp]: "chain h q [] = (q = None)"
  by (simp add: chain_def)

lemma chain_Cons:
  "chain h q (a # as) = (q = Some a \<and> (\<exists>s. h a = Some s \<and> chain h (next_ptr s) as))"
  by (auto simp: chain_def split: option.splits)

lemma chain_None [simp]: "chain h None as = (as = [])"
  by (cases as) (simp_all add: chain_def)

lemma chain_unique: "chain h q as \<Longrightarrow> chain h q bs \<Longrightarrow> as = bs"
proof (induction as arbitrary: q bs)
  case Nil
  then show ?case by simp
next
  case (Cons a as)
  then obtain s where s: "q = Some a" "h a = Some s" "chain h (next_ptr s) as"
    by (auto simp: chain_Cons)
  then obtain bs' where bs: "bs = a # bs'" using Cons.prems(2) by (cases bs) (auto simp: chain_Cons)
  then have "chain h (next_ptr s) bs'" using Cons.prems(2) s by (auto simp: chain_Cons)
  then show ?case using Cons.IH s bs by blast
qed

lemma chain_head_notin_tail:
  assumes "h a = Some s" "chain h (next_ptr s) as"
  shows "a \<notin> set as"
proof
  assume "a \<in> set as"
  then obtain xs ys where as: "as = xs @ a # ys" by (auto simp: in_set_conv_decomp)
  then obtain u where "next_path h u (a # ys) None" 
    using assms(2) by (auto simp: chain_def path_append)
  then have "chain h (next_ptr s) ys" using assms(1) by (simp add: chain_def)
  then have "as = ys" using assms(2) chain_unique by blast
  then show False using as by simp
qed

lemma chain_distinct: "chain h q as \<Longrightarrow> distinct as"
proof (induction as arbitrary: q)
  case Nil
  then show ?case by simp
next
  case (Cons a as)
  then obtain s where s: "h a = Some s" "chain h (next_ptr s) as"
    by (auto simp: chain_Cons)
  then show ?case using Cons.IH chain_head_notin_tail by auto
qed

lemma chain_allocated: "chain h q as \<Longrightarrow> a \<in> set as \<Longrightarrow> h a \<noteq> None"
  unfolding chain_def by (rule path_allocated)

section \<open>The loops over a list of the registry\<close>

text \<open>
  Each loop that follows \<open>next\<close> from the head of a list returns, and computes what the
  corresponding function on the list of addresses computes.
\<close>

lemma find_duplicate_chain:
  "chain h c as \<Longrightarrow> find_duplicate h new c = Some (List.find (collides h new) as)"
proof (induction as arbitrary: c)
  case Nil
  then show ?case by (subst find_duplicate.simps) simp
next
  case (Cons a as)
  then obtain s where s: "c = Some a" "h a = Some s" "chain h (next_ptr s) as"
    by (auto simp: chain_Cons)
  have c: "collides h new a = (name s = name new \<or> shortname s = shortname new)"
    using s by (simp add: collides_def)
  show ?case
    using s Cons.IH [OF s(3)]
    by (subst find_duplicate.simps) (simp add: c)
qed

lemma SetSet_loop_chain:
  "chain (heap m) s as \<Longrightarrow>
   SetSet_loop m nm s =
     Some (case List.find (\<lambda>a. name_at (heap m) a = Some nm) as of
             None \<Rightarrow> (m, False)
           | Some a \<Rightarrow> (m\<lparr>used_set := Some a\<rparr>, True))"
proof (induction as arbitrary: s)
  case Nil
  then show ?case by (subst SetSet_loop.simps) simp
next
  case (Cons a as)
  then obtain t where t: "s = Some a" "heap m a = Some t" "chain (heap m) (next_ptr t) as"
    by (auto simp: chain_Cons)
  have c: "(name_at (heap m) a = Some nm) = (nm = name t)"
    using t by (auto simp add: name_at_def)
  show ?case
    using t Cons.IH [OF t(3)]
    by (subst SetSet_loop.simps) (simp add: c)
qed

lemma GetNumSets_loop_chain:
  "chain (heap m) s as \<Longrightarrow>
   GetNumSets_loop m s n = Some (n + int (length (filter (visible m) as)))"
proof (induction as arbitrary: s n)
  case Nil
  then show ?case by (subst GetNumSets_loop.simps) simp
next
  case (Cons a as)
  then obtain t where t: "s = Some a" "heap m a = Some t" "chain (heap m) (next_ptr t) as"
    by (auto simp: chain_Cons)
  have c: "visible m a = (s = used_set m \<or> GetNumMissing t = 0)"
    using t by (auto simp add: visible_def complete_at_def)
  show ?case
    using t Cons.IH [OF t(3)]
    by (subst GetNumSets_loop.simps) (simp add: c)
qed

lemma GetIndexOfUsedSet_loop_chain:
  "chain (heap m) s as \<Longrightarrow>
   GetIndexOfUsedSet_loop m s n =
     Some (if \<exists>a \<in> set as. used_set m = Some a
           then n + int (length (filter (complete_at (heap m)) (takeWhile (\<lambda>a. used_set m \<noteq> Some a) as)))
           else - 1)"
proof (induction as arbitrary: s n)
  case Nil
  then show ?case by (subst GetIndexOfUsedSet_loop.simps) simp
next
  case (Cons a as)
  then obtain t where t: "s = Some a" "heap m a = Some t" "chain (heap m) (next_ptr t) as"
    by (auto simp: chain_Cons)
  have c: "complete_at (heap m) a = (GetNumMissing t = 0)"
    using t by (auto simp add: complete_at_def)
  show ?case
    using t Cons.IH [OF t(3)]
    by (subst GetIndexOfUsedSet_loop.simps) (auto simp add: c)
qed

lemma xor_hash_map2:
  "length md5 = 16 \<Longrightarrow> length h = 16 \<Longrightarrow> xor_hash md5 h = map2 (XOR) md5 h"
  by (rule nth_equalityI) (simp_all add: xor_hash_def)

lemma xor_fold:
  "length acc = 16 \<Longrightarrow> list_all (\<lambda>f. length (hash f) = 16) fs \<Longrightarrow>
   fold (\<lambda>f md5. xor_hash md5 (hash f)) fs acc = foldl (map2 (XOR)) acc (map hash fs)"
proof (induction fs arbitrary: acc)
  case Nil
  then show ?case by simp
next
  case (Cons f fs)
  then have "xor_hash acc (hash f) = map2 (XOR) acc (hash f)"
    by (simp add: xor_hash_map2)
  moreover have "length (map2 (XOR) acc (hash f)) = 16" using Cons.prems by simp
  ultimately show ?case using Cons.IH [of "map2 (XOR) acc (hash f)"] Cons.prems(2) by simp
qed

lemma xor_files_combined:
  "list_all (\<lambda>f. length (hash f) = 16) (files t) \<Longrightarrow> xor_files t = combined_digest t"
  by (simp add: xor_files_def combined_digest_def xor_fold)

lemma TryGetBaseSetFile_loop_chain:
  "chain h s as \<Longrightarrow> list_all (hashes_sized h) as \<Longrightarrow>
   TryGetBaseSetFile_loop h (ci, md5sum) s = Some (first_match h ci md5sum as)"
proof (induction as arbitrary: s)
  case Nil
  then show ?case by (subst TryGetBaseSetFile_loop.simps) (simp add: first_match_def)
next
  case (Cons a as)
  then obtain t where t: "s = Some a" "h a = Some t" "chain h (next_ptr t) as"
    by (auto simp: chain_Cons)
  have "list_all (\<lambda>f. length (hash f) = 16) (files t)"
    using Cons.prems(2) t by (simp add: hashes_sized_def)
  then have x: "xor_files t = combined_digest t" by (rule xor_files_combined)
  have c: "satisfies h ci md5sum a =
      (GetNumMissing t = 0 \<and> shortname t = unique_id ci \<and>
       (\<not> md5sum \<or> combined_digest t = take 16 (ci_md5sum ci)))"
    using t by (simp add: satisfies_def)
  have p: "primary_file h a = filename (files t ! 0)"
    using t by (simp add: primary_file_def)
  have IH: "TryGetBaseSetFile_loop h (ci, md5sum) (next_ptr t) = Some (first_match h ci md5sum as)"
    using Cons.IH [OF t(3)] Cons.prems(2) by simp
  show ?case
    using t IH
    by (subst TryGetBaseSetFile_loop.simps) (auto simp add: c p x first_match_def)
qed

lemma first_match_Some:
  "first_match h ci md5sum as = Some f \<Longrightarrow>
   \<exists>a \<in> set as. satisfies h ci md5sum a \<and> complete_at h a \<and> primary_file h a = Some f"
  unfolding first_match_def
  by (auto simp: find_Some_iff satisfies_def complete_at_def split: option.splits)

lemma first_match_None:
  "\<forall>a \<in> set as. \<not> satisfies h ci md5sum a \<Longrightarrow> first_match h ci md5sum as = None"
proof -
  assume "\<forall>a \<in> set as. \<not> satisfies h ci md5sum a"
  then have "List.find (satisfies h ci md5sum) as = None" by (simp add: find_None_iff)
  then show ?thesis by (simp add: first_match_def)
qed

text \<open>The same for \<open>SetSet\<close> with a name.\<close>

lemma SetSet_preserves:
  assumes wf: "registry m as ds" and nm: "nm \<noteq> []"
    and run: "SetSet DetermineBestSet (Some nm) m = Some (m', r)"
  shows "registry m' as ds \<and> (used_linked m as \<longrightarrow> used_linked m' as)"
proof -
  have c: "chain (heap m) (available_sets m) as" using wf by (simp add: registry_def)
  have loop: "SetSet_loop m nm (available_sets m) = Some (m', r)"
    using run nm by (simp add: SetSet_def StrEmpty_def)
  show ?thesis
  proof (cases "List.find (\<lambda>a. name_at (heap m) a = Some nm) as")
    case None
    then have "m' = m" using loop SetSet_loop_chain [OF c, of nm] by simp
    then show ?thesis using wf by simp
  next
    case (Some a)
    then have m': "m' = m\<lparr>used_set := Some a\<rparr>" using loop SetSet_loop_chain [OF c, of nm] by simp
    have "a \<in> set as" using Some by (auto simp: find_Some_iff)
    then show ?thesis using wf m' by (simp add: registry_def used_linked_def)
  qed
qed

section \<open>The claims on the queries of the registry\<close>

text \<open>
  Claim C3.  In a registry with the accepted sets \<open>as\<close> and the superseded sets \<open>ds\<close>,
  whose file hashes have 16 bytes, \<open>TryGetBaseSetFile\<close> on either list returns the file
  of the first slot of the first set of the list that has no missing file, has the
  requested short name and, when the digest is to be checked, whose XOR over the
  checksums of all its files, byte by byte and in the order of the file table, is the
  requested digest; it returns \<open>NULL\<close> when the list has no such set.  \<open>HasSet\<close>
  searches the accepted list first and the superseded list second.  A result that is
  not \<open>NULL\<close> is the primary file of a set without missing files.  This is the code
  under \<open>ENABLE_NETWORK\<close>.
\<close>

theorem TryGetBaseSetFile_first_match:
  assumes "registry m as ds" and "list_all (hashes_sized (heap m)) (as @ ds)"
  shows "TryGetBaseSetFile (heap m) ci md5sum (available_sets m)
           = Some (case List.find (satisfies (heap m) ci md5sum) as of
                     None \<Rightarrow> None | Some a \<Rightarrow> primary_file (heap m) a) \<and>
         TryGetBaseSetFile (heap m) ci md5sum (duplicate_sets m)
           = Some (case List.find (satisfies (heap m) ci md5sum) ds of
                     None \<Rightarrow> None | Some a \<Rightarrow> primary_file (heap m) a) \<and>
         HasSet m ci md5sum
           = Some (first_match (heap m) ci md5sum as \<noteq> None \<or>
                   first_match (heap m) ci md5sum ds \<noteq> None) \<and>
         (\<forall>xs f. first_match (heap m) ci md5sum xs = Some f \<longrightarrow>
            (\<exists>a \<in> set xs. satisfies (heap m) ci md5sum a \<and> complete_at (heap m) a \<and>
                           primary_file (heap m) a = Some f)) \<and>
         (\<forall>xs. (\<forall>a \<in> set xs. \<not> satisfies (heap m) ci md5sum a) \<longrightarrow>
            first_match (heap m) ci md5sum xs = None)"
proof -
  have a: "TryGetBaseSetFile (heap m) ci md5sum (available_sets m)
             = Some (first_match (heap m) ci md5sum as)"
    using assms by (simp add: TryGetBaseSetFile_def TryGetBaseSetFile_loop_chain registry_def)
  have d: "TryGetBaseSetFile (heap m) ci md5sum (duplicate_sets m)
             = Some (first_match (heap m) ci md5sum ds)"
    using assms by (simp add: TryGetBaseSetFile_def TryGetBaseSetFile_loop_chain registry_def)
  have h: "HasSet m ci md5sum
           = Some (first_match (heap m) ci md5sum as \<noteq> None \<or>
                   first_match (heap m) ci md5sum ds \<noteq> None)"
    by (simp add: HasSet_def a d)
  show ?thesis
    using a d h first_match_Some first_match_None
    by (simp add: first_match_def)
qed

text \<open>
  Claim C8.  In a registry whose accepted sets are \<open>as\<close> and whose set in use is linked,
  \<open>GetNumSets\<close> is the number of accepted sets that are the set in use or have no
  missing file, and \<open>GetIndexOfUsedSet\<close> is the number of such sets in front of the set
  in use, and \<open>- 1\<close> exactly when there is no set in use.
\<close>
theorem GetNumSets_GetIndexOfUsedSet_visible:
  assumes "chain (heap m) (available_sets m) as" and "used_linked m as"
  shows "GetNumSets m = Some (int (length (filter (visible m) as))) \<and>
         GetIndexOfUsedSet m =
           Some (case used_set m of
                   None \<Rightarrow> - 1
                 | Some u \<Rightarrow> int (length (filter (visible m) (takeWhile (\<lambda>a. a \<noteq> u) as)))) \<and>
         (GetIndexOfUsedSet m = Some (- 1)) = (used_set m = None)"
proof -
  have n: "GetNumSets m = Some (int (length (filter (visible m) as)))"
    using GetNumSets_loop_chain [OF assms(1), of 0] by (simp add: GetNumSets_def)
  have i: "GetIndexOfUsedSet m =
           Some (case used_set m of
                   None \<Rightarrow> - 1
                 | Some u \<Rightarrow> int (length (filter (visible m) (takeWhile (\<lambda>a. a \<noteq> u) as))))"
  proof (cases "used_set m")
    case None
    then show ?thesis
      using GetIndexOfUsedSet_loop_chain [OF assms(1), of 0] by (simp add: GetIndexOfUsedSet_def)
  next
    case (Some u)
    then have u: "u \<in> set as" using assms(2) by (simp add: used_linked_def)
    have tw: "takeWhile (\<lambda>a. used_set m \<noteq> Some a) as = takeWhile (\<lambda>a. a \<noteq> u) as"
      using Some by (auto intro: takeWhile_cong)
    have fl: "filter (complete_at (heap m)) (takeWhile (\<lambda>a. a \<noteq> u) as)
            = filter (visible m) (takeWhile (\<lambda>a. a \<noteq> u) as)"
      using Some by (auto intro!: filter_cong dest: set_takeWhileD simp: visible_def)
    have ex: "\<exists>a \<in> set as. used_set m = Some a" using u Some by blast
    have "GetIndexOfUsedSet_loop m (available_sets m) 0 =
            Some (0 + int (length (filter (complete_at (heap m))
                                     (takeWhile (\<lambda>a. used_set m \<noteq> Some a) as))))"
      by (subst GetIndexOfUsedSet_loop_chain [OF assms(1)]) (simp only: ex if_True)
    then have "GetIndexOfUsedSet m =
            Some (int (length (filter (visible m) (takeWhile (\<lambda>a. a \<noteq> u) as))))"
      by (simp only: tw fl GetIndexOfUsedSet_def add_0)
    then show ?thesis using Some by simp
  qed
  show ?thesis using n i by (auto split: option.splits)
qed

text \<open>
  Claim C9.  \<open>SetSet\<close> with a name that is not empty: when an accepted set has that
  name, the first such set becomes the set in use, nothing else changes, and the result
  is true; when no accepted set has that name, the registry is left as it is and the
  result is false.
\<close>
theorem SetSet_by_name:
  assumes "chain (heap m) (available_sets m) as" and "nm \<noteq> []"
  shows "SetSet DetermineBestSet (Some nm) m =
           Some (case List.find (\<lambda>a. name_at (heap m) a = Some nm) as of
                   None \<Rightarrow> (m, False)
                 | Some a \<Rightarrow> (m\<lparr>used_set := Some a\<rparr>, True))"
  using assms by (simp add: SetSet_def StrEmpty_def SetSet_loop_chain)

section \<open>Linking a descriptor into the registry\<close>

lemma path_cong:
  "(\<And>a. a \<in> set as \<Longrightarrow> h' a = h a) \<Longrightarrow> next_path h' q as r = next_path h q as r"
  by (induction as arbitrary: q) (auto split: option.splits)

lemma chain_cong:
  "(\<And>a. a \<in> set as \<Longrightarrow> h' a = h a) \<Longrightarrow> chain h' q as = chain h q as"
  unfolding chain_def by (rule path_cong)

lemma path_distinct_prefix:
  "next_path h q (xs @ ys) None \<Longrightarrow> distinct (xs @ ys)"
  using chain_distinct [of h q "xs @ ys"] by (simp add: chain_def)

text \<open>The link behind the prefix \<open>xs\<close> of a list.\<close>

lemma find_last_chain:
  "link_chain m l as \<Longrightarrow> find_last m l = Some (if as = [] then l else NextOf (last as))"
proof (induction as arbitrary: l)
  case Nil
  then show ?case
    by (subst find_last.simps) (auto simp: link_chain_def split: option.splits)
next
  case (Cons a as)
  then obtain s where s: "deref m l = Some (Some a)" "heap m a = Some s" "chain (heap m) (next_ptr s) as"
    by (auto simp: link_chain_def chain_Cons split: option.splits)
  then have "link_chain m (NextOf a) as"
    by (simp add: link_chain_def deref_def get_next_def)
  then have "find_last m (NextOf a) = Some (if as = [] then NextOf a else NextOf (last as))"
    by (rule Cons.IH)
  then show ?case using s by (subst find_last.simps) simp
qed

lemma find_prev_chain:
  "link_chain m l (xs @ d # ys) \<Longrightarrow> d \<notin> set xs \<Longrightarrow>
   find_prev m d l = Some (if xs = [] then l else NextOf (last xs))"
proof (induction xs arbitrary: l)
  case Nil
  then show ?case
    by (subst find_prev.simps) (auto simp: link_chain_def chain_Cons split: option.splits)
next
  case (Cons a xs)
  then obtain s where s: "deref m l = Some (Some a)" "heap m a = Some s"
      "chain (heap m) (next_ptr s) (xs @ d # ys)"
    by (auto simp: link_chain_def chain_Cons split: option.splits)
  then have "link_chain m (NextOf a) (xs @ d # ys)"
    by (simp add: link_chain_def deref_def get_next_def)
  then have "find_prev m d (NextOf a) = Some (if xs = [] then NextOf a else NextOf (last xs))"
    using Cons.IH Cons.prems(2) by simp
  then show ?case using s Cons.prems(2) by (subst find_prev.simps) auto
qed

lemma link_chain_Head: "link_chain m Head as = chain (heap m) (available_sets m) as"
  by (simp add: link_chain_def deref_def)

text \<open>Storing \<open>r\<close> through the link behind the prefix \<open>xs\<close>.\<close>

lemma assign_behind:
  assumes "next_path (heap m) (available_sets m) xs u" and "distinct xs"
  shows "\<exists>m'. assign m (if xs = [] then Head else NextOf (last xs)) r = Some m' \<and>
           next_path (heap m') (available_sets m') xs r \<and>
           used_set m' = used_set m \<and> duplicate_sets m' = duplicate_sets m \<and>
           (\<forall>a. a \<notin> set xs \<longrightarrow> heap m' a = heap m a) \<and>
           (\<forall>a. map_option unlinked (heap m' a) = map_option unlinked (heap m a))"
proof (cases xs rule: rev_cases)
  case Nil
  then show ?thesis by (simp add: assign_def)
next
  case (snoc bs z)
  then obtain sz where p: "next_path (heap m) (available_sets m) bs (Some z)" and z: "heap m z = Some sz"
    using assms(1) by (auto simp: path_append split: option.splits)
  let ?h = "(heap m)(z \<mapsto> sz\<lparr>next_ptr := r\<rparr>)"
  let ?m = "m\<lparr>heap := ?h\<rparr>"
  have zb: "z \<notin> set bs" using assms(2) snoc by simp
  have a: "assign m (NextOf z) r = Some ?m"
    using z by (simp add: assign_def set_next_def)
  have "next_path ?h (available_sets m) bs (Some z)"
    using p zb by (simp add: path_upd_other)
  then have "next_path ?h (available_sets m) (bs @ [z]) r"
    by (simp add: path_append)
  moreover have "\<forall>a. map_option unlinked (?h a) = map_option unlinked (heap m a)"
    using z by (simp add: unlinked_def)
  ultimately show ?thesis using a snoc by auto
qed

lemma find_first:
  "\<forall>a \<in> set xs. \<not> P a \<Longrightarrow> P d \<Longrightarrow> List.find P (xs @ d # ys) = Some d"
  by (induction xs) auto

lemma find_split:
  "List.find P as = Some d \<Longrightarrow> \<exists>xs ys. as = xs @ d # ys \<and> (\<forall>a \<in> set xs. \<not> P a) \<and> P d"
proof (induction as)
  case Nil
  then show ?case by simp
next
  case (Cons a as)
  show ?case
  proof (cases "P a")
    case True
    then have "a = d" using Cons.prems by simp
    then show ?thesis using True by (intro exI [of _ "[]"] exI [of _ as]) simp
  next
    case False
    then obtain xs ys where "as = xs @ d # ys \<and> (\<forall>a \<in> set xs. \<not> P a) \<and> P d"
      using Cons by auto
    then show ?thesis using False by (intro exI [of _ "a # xs"] exI [of _ ys]) auto
  qed
qed

lemma unlinked_next [simp]: "unlinked (s\<lparr>next_ptr := n\<rparr>) = unlinked s"
  by (simp add: unlinked_def)

lemma link_set_append:
  assumes wf: "registry m as ds"
    and hp: "heap m p = Some new" "next_ptr new = None"
    and pn: "p \<notin> set (as @ ds)"
    and none: "List.find (collides (heap m) new) as = None"
  shows "\<exists>m'. link_set m p new = Some (m', True) \<and> registry m' (as @ [p]) ds \<and>
           used_set m' = used_set m \<and>
           (\<forall>a. map_option unlinked (heap m' a) = map_option unlinked (heap m a))"
proof -
  have ca: "chain (heap m) (available_sets m) as" and cd: "chain (heap m) (duplicate_sets m) ds"
    and di: "distinct (as @ ds)"
    using wf by (simp_all add: registry_def)
  have fd: "find_duplicate (heap m) new (available_sets m) = Some None"
    using find_duplicate_chain [OF ca] none by simp
  have fl: "find_last m Head = Some (if as = [] then Head else NextOf (last as))"
    using find_last_chain [of m Head as] ca by (simp add: link_chain_Head)
  have "next_path (heap m) (available_sets m) as None" using ca by (simp add: chain_def)
  moreover have "distinct as" using di by simp
  ultimately obtain m' where m': "assign m (if as = [] then Head else NextOf (last as)) (Some p) = Some m'"
      "next_path (heap m') (available_sets m') as (Some p)"
      "used_set m' = used_set m" "duplicate_sets m' = duplicate_sets m"
      "\<forall>a. a \<notin> set as \<longrightarrow> heap m' a = heap m a"
      "\<forall>a. map_option unlinked (heap m' a) = map_option unlinked (heap m a)"
    using assign_behind [of m as None "Some p"] by blast
  have "heap m' p = Some new" using m'(5) pn hp by simp
  then have "next_path (heap m') (Some p) [p] None" using hp(2) by simp
  then have 1: "chain (heap m') (available_sets m') (as @ [p])"
    using m'(2) unfolding chain_def path_append by blast
  have "chain (heap m') (duplicate_sets m) ds = chain (heap m) (duplicate_sets m) ds"
    using m'(5) di by (intro chain_cong) auto
  then have 2: "chain (heap m') (duplicate_sets m') ds" using cd m'(4) by simp
  have 3: "distinct ((as @ [p]) @ ds)" using di pn by auto
  have "link_set m p new = Some (m', True)"
    by (simp add: link_set_def fd fl m'(1))
  then show ?thesis using 1 2 3 m'(3) m'(6) by (simp add: registry_def)
qed

lemma link_set_keep:
  assumes wf: "registry m as ds"
    and hp: "heap m p = Some new" "next_ptr new = None"
    and pn: "p \<notin> set (as @ ds)"
    and dup: "List.find (collides (heap m) new) as = Some d" "heap m d = Some D"
    and keep: "keeps_duplicate D new"
  shows "\<exists>m'. link_set m p new = Some (m', False) \<and> registry m' as (p # ds) \<and>
           used_set m' = used_set m \<and> (\<forall>a. a \<noteq> p \<longrightarrow> heap m' a = heap m a) \<and>
           (\<forall>a. map_option unlinked (heap m' a) = map_option unlinked (heap m a))"
proof -
  have ca: "chain (heap m) (available_sets m) as" and cd: "chain (heap m) (duplicate_sets m) ds"
    and di: "distinct (as @ ds)"
    using wf by (simp_all add: registry_def)
  have fd: "find_duplicate (heap m) new (available_sets m) = Some (Some d)"
    using find_duplicate_chain [OF ca] dup(1) by simp
  let ?h = "(heap m)(p \<mapsto> new\<lparr>next_ptr := duplicate_sets m\<rparr>)"
  let ?m = "m\<lparr>heap := ?h, duplicate_sets := Some p\<rparr>"
  have ls: "link_set m p new = Some (?m, False)"
    using keep by (simp add: link_set_def fd dup(2) set_next_def hp(1))
  have 1: "chain ?h (available_sets m) as"
    using ca pn by (simp add: chain_upd_other)
  have "chain ?h (duplicate_sets m) ds"
    using cd pn by (simp add: chain_upd_other)
  then have 2: "chain ?h (Some p) (p # ds)" by (simp add: chain_Cons)
  have 3: "distinct (as @ p # ds)" using di pn by auto
  have 4: "\<forall>a. map_option unlinked (?h a) = map_option unlinked (heap m a)"
    using hp(1) by simp
  show ?thesis using ls 1 2 3 4 by (simp add: registry_def)
qed

lemma link_set_replace:
  assumes wf: "registry m (xs @ d # ys) ds"
    and hp: "heap m p = Some new" "next_ptr new = None"
    and pn: "p \<notin> set ((xs @ d # ys) @ ds)"
    and first: "\<forall>a \<in> set xs. \<not> collides (heap m) new a" "collides (heap m) new d"
    and D: "heap m d = Some D"
    and win: "\<not> keeps_duplicate D new"
  shows "\<exists>m'. link_set m p new = Some (m', True) \<and> registry m' (xs @ p # ys) (d # ds) \<and>
           used_set m' = (if used_set m = Some d then Some p else used_set m) \<and>
           (\<forall>a. map_option unlinked (heap m' a) = map_option unlinked (heap m a))"
proof -
  have ca: "chain (heap m) (available_sets m) (xs @ d # ys)"
    and cd: "chain (heap m) (duplicate_sets m) ds"
    and di: "distinct ((xs @ d # ys) @ ds)"
    using wf by (simp_all add: registry_def)
  have dx: "d \<notin> set xs" "distinct xs" "p \<notin> set xs" "p \<noteq> d" using di pn by auto
  have fd: "find_duplicate (heap m) new (available_sets m) = Some (Some d)"
    using find_duplicate_chain [OF ca] find_first [of xs "collides (heap m) new" d ys] first by simp
  have fp: "find_prev m d Head = Some (if xs = [] then Head else NextOf (last xs))"
    using find_prev_chain [of m Head xs d ys] ca dx(1) by (simp add: link_chain_Head)
  have px: "next_path (heap m) (available_sets m) xs (Some d)"
    and cy: "chain (heap m) (next_ptr D) ys"
    using ca D unfolding chain_def path_append by auto
  obtain m1 where m1: "assign m (if xs = [] then Head else NextOf (last xs)) (Some p) = Some m1"
      "next_path (heap m1) (available_sets m1) xs (Some p)"
      "used_set m1 = used_set m" "duplicate_sets m1 = duplicate_sets m"
      "\<forall>a. a \<notin> set xs \<longrightarrow> heap m1 a = heap m a"
      "\<forall>a. map_option unlinked (heap m1 a) = map_option unlinked (heap m a)"
    using assign_behind [OF px dx(2), of "Some p"] by blast
  have h1d: "heap m1 d = Some D" and h1p: "heap m1 p = Some new"
    using m1(5) dx D hp(1) by simp_all
  define h5 where "h5 = ((heap m1)(p \<mapsto> new\<lparr>next_ptr := next_ptr D\<rparr>))(d \<mapsto> D\<lparr>next_ptr := duplicate_sets m\<rparr>)"
  define m5 where "m5 = m1\<lparr>heap := h5,
      used_set := (if used_set m = Some d then Some p else used_set m),
      duplicate_sets := Some d\<rparr>"
  have rd: "replace_duplicate m p d = Some (m5, True)"
    using dx(4)
    by (simp add: replace_duplicate_def fp m1(1) get_next_def set_next_def h1d h1p m1(3) m1(4)
          m5_def h5_def)
  have ls: "link_set m p new = Some (m5, True)"
    using win by (simp add: link_set_def fd D rd)
  have "next_path h5 (available_sets m1) xs (Some p) = next_path (heap m1) (available_sets m1) xs (Some p)"
    using dx by (intro path_cong) (auto simp: h5_def)
  then have a1: "next_path h5 (available_sets m1) xs (Some p)" using m1(2) by simp
  have "chain h5 (next_ptr D) ys = chain (heap m) (next_ptr D) ys"
    using di pn m1(5) by (intro chain_cong) (auto simp: h5_def)
  then have a2: "chain h5 (next_ptr D) ys" using cy by simp
  have h5p: "h5 p = Some (new\<lparr>next_ptr := next_ptr D\<rparr>)" using dx(4) by (simp add: h5_def)
  have "next_path h5 (Some p) (p # ys) None"
    using a2 h5p by (simp add: chain_def)
  then have 1: "chain h5 (available_sets m1) (xs @ p # ys)"
    using a1 unfolding chain_def path_append by blast
  have "chain h5 (duplicate_sets m) ds = chain (heap m) (duplicate_sets m) ds"
    using di pn m1(5) by (intro chain_cong) (auto simp: h5_def)
  then have "chain h5 (duplicate_sets m) ds" using cd by simp
  then have 2: "chain h5 (Some d) (d # ds)" by (simp add: chain_Cons h5_def)
  have 3: "distinct ((xs @ p # ys) @ d # ds)" using di pn by auto
  have 4: "\<forall>a. map_option unlinked (h5 a) = map_option unlinked (heap m a)"
    using m1(6) hp(1) D by (simp add: h5_def)
  show ?thesis using ls 1 2 3 4 by (simp add: registry_def m5_def)
qed

section \<open>AddFile\<close>

lemma FillSetDetails_next_ptr:
  assumes "FillSetDetails check file_names ini path full_filename allow = Inr s"
  shows "next_ptr s = None"
proof -
  from assms obtain md t where t: "fill_metadata md (zero_set (length file_names)) = Inr t"
    and l: "files_loop check file_names (get_group ini ''files'') (get_group ini ''md5s'')
              (get_group ini ''origin'') path allow 0 t = Inr s"
    unfolding FillSetDetails_def by (auto split: option.splits sum.splits)
  have "next_ptr t = None" using fill_metadata_Inr(6) [OF t] by (simp add: zero_set_def)
  then show ?thesis using files_loop_fields [OF l] by simp
qed

lemma collides_upd_other: "a \<noteq> p \<Longrightarrow> collides (h(p \<mapsto> s)) new a = collides h new a"
  by (simp add: collides_def)

lemma collides_upd_in:
  "p \<notin> set as \<Longrightarrow> a \<in> set as \<Longrightarrow> collides (h(p \<mapsto> s)) new a = collides h new a"
  by (auto simp: collides_def)

lemma find_collides_upd:
  "p \<notin> set as \<Longrightarrow> List.find (collides (h(p \<mapsto> s)) new) as = List.find (collides h new) as"
  by (induction as) (auto simp: collides_upd_other)

text \<open>The registry with the new descriptor in the store, before it is linked.\<close>

lemma registry_allocate:
  assumes "registry m as ds" and "heap m p = None"
  shows "p \<notin> set (as @ ds)" and "registry (m\<lparr>heap := (heap m)(p \<mapsto> new)\<rparr>) as ds"
proof -
  show p: "p \<notin> set (as @ ds)"
    using assms chain_allocated [of "heap m" _ _ p] by (auto simp: registry_def)
  then show "registry (m\<lparr>heap := (heap m)(p \<mapsto> new)\<rparr>) as ds"
    using assms(1) by (simp add: registry_def chain_upd_other)
qed

lemma AddFile_links:
  assumes "basepath_length \<le> length ini_filename"
    and "FillSetDetails check file_names ini (set_path PATHSEPCHAR (drop basepath_length ini_filename))
           ini_filename allow = Inr new"
  shows "AddFile check file_names allow PATHSEPCHAR ini p m ini_filename basepath_length
           = link_set (m\<lparr>heap := (heap m)(p \<mapsto> new)\<rparr>) p new"
  using assms by (simp add: AddFile_def)

lemma unlinked_allocate:
  assumes "heap m p = None" and "next_ptr new = None"
    and "\<forall>a. map_option unlinked (heap m' a) = map_option unlinked (((heap m)(p \<mapsto> new)) a)"
  shows "map_option unlinked (heap m' p) = Some new"
    and "\<forall>a. a \<noteq> p \<longrightarrow> map_option unlinked (heap m' a) = map_option unlinked (heap m a)"
  using assms by (simp_all add: unlinked_def)

lemma unlinked_fields:
  "unlinked D = unlinked new \<Longrightarrow>
   name D = name new \<and> shortname D = shortname new \<and> version D = version new \<and>
   valid_files D = valid_files new"
proof -
  assume a: "unlinked D = unlinked new"
  have "name (unlinked D) = name D" "shortname (unlinked D) = shortname D"
    "version (unlinked D) = version D" "valid_files (unlinked D) = valid_files D"
    "name (unlinked new) = name new" "shortname (unlinked new) = shortname new"
    "version (unlinked new) = version new" "valid_files (unlinked new) = valid_files new"
    by (simp_all add: unlinked_def)
  then show ?thesis using a by metis
qed

lemma collides_unlinked:
  "map_option unlinked (h' a) = map_option unlinked (h a) \<Longrightarrow> collides h' new a = collides h new a"
proof -
  assume a: "map_option unlinked (h' a) = map_option unlinked (h a)"
  show ?thesis
  proof (cases "h a")
    case None
    then show ?thesis using a by (simp add: collides_def)
  next
    case (Some s)
    then obtain s' where s': "h' a = Some s'" "unlinked s' = unlinked s" using a by auto
    have "name (unlinked s') = name s'" "shortname (unlinked s') = shortname s'"
      "name (unlinked s) = name s" "shortname (unlinked s) = shortname s"
      by (simp_all add: unlinked_def)
    then have "name s' = name s" "shortname s' = shortname s" using s'(2) by metis+
    then show ?thesis using Some s'(1) by (simp add: collides_def)
  qed
qed

lemma registry_unique:
  "registry m as ds \<Longrightarrow> registry m as' ds' \<Longrightarrow> as' = as \<and> ds' = ds"
  using chain_unique by (auto simp: registry_def)

text \<open>
  Claim C1.  \<open>AddFile\<close> in a registry with the accepted sets \<open>as\<close> and the superseded
  sets \<open>ds\<close>, for a manifest that \<open>FillSetDetails\<close> accepts as the descriptor \<open>new\<close>
  at the fresh address \<open>p\<close>.  First: when \<open>d\<close> is the first accepted set that has the name
  or the short name of \<open>new\<close> and \<open>D\<close> is its descriptor, the result is "not added"
  exactly when \<open>new\<close> and \<open>D\<close> have the same number of valid files and the version of
  \<open>D\<close> is at least that of \<open>new\<close>, or \<open>D\<close> has more valid files.  The descriptor at
  \<open>p\<close> is \<open>new\<close>.  When the result is "not added", \<open>p\<close> is the new head of the
  superseded list, the accepted list is as before, every descriptor but the one at \<open>p\<close>
  is unchanged, \<open>D\<close> among them, and the set in use is as before; otherwise \<open>p\<close> is in
  the accepted list and not in the superseded list.  In particular a manifest with the
  name, the short name, the version and the number of valid files of \<open>D\<close> is
  superseded and leaves the accepted list as it is.  Second: the call returns, and when
  the same manifest is added a second time, at another fresh address \<open>q\<close>, the result
  is "not added", the accepted list is as the first call left it, the second
  descriptor, which is \<open>new\<close> again, is the new head of the superseded list, and every
  other descriptor is unchanged.
\<close>

theorem AddFile_new_loses:
  assumes wf: "registry m as ds" and fresh: "heap m p = None"
    and len: "basepath_length \<le> length ini_filename"
    and fill: "FillSetDetails check file_names ini (set_path PATHSEPCHAR (drop basepath_length ini_filename))
           ini_filename allow = Inr new"
  shows "(\<forall>d D. List.find (collides (heap m) new) as = Some d \<longrightarrow> heap m d = Some D \<longrightarrow>
           (\<exists>m'. AddFile check file_names allow PATHSEPCHAR ini p m ini_filename basepath_length
                    = Some (m', \<not> ((valid_files new = valid_files D \<and> sint (version D) \<ge> sint (version new)) \<or>
                                    valid_files D > valid_files new)) \<and>
                 map_option unlinked (heap m' p) = Some new \<and>
                 (if (valid_files new = valid_files D \<and> sint (version D) \<ge> sint (version new)) \<or>
                     valid_files D > valid_files new
                  then registry m' as (p # ds) \<and> (\<forall>a. a \<noteq> p \<longrightarrow> heap m' a = heap m a) \<and>
                       heap m' d = Some D \<and> used_set m' = used_set m
                  else (\<exists>as' ds'. registry m' as' ds' \<and> p \<in> set as' \<and> p \<notin> set ds')) \<and>
                 (name D = name new \<and> shortname D = shortname new \<and> version D = version new \<and>
                  valid_files D = valid_files new \<longrightarrow> registry m' as (p # ds)))) \<and>
         (\<exists>m1 r. AddFile check file_names allow PATHSEPCHAR ini p m ini_filename basepath_length
                    = Some (m1, r) \<and>
           (\<forall>q. heap m1 q = None \<longrightarrow>
             (\<exists>as1 ds1 m2. registry m1 as1 ds1 \<and>
                AddFile check file_names allow PATHSEPCHAR ini q m1 ini_filename basepath_length
                  = Some (m2, False) \<and>
                registry m2 as1 (q # ds1) \<and>
                map_option unlinked (heap m2 q) = Some new \<and>
                (\<forall>a. a \<noteq> q \<longrightarrow> heap m2 a = heap m1 a))))"
proof -
  let ?L = "\<lambda>D. (valid_files new = valid_files D \<and> sint (version D) \<ge> sint (version new)) \<or>
              valid_files D > valid_files new"
  have L: "\<And>D. keeps_duplicate D new = ?L D" by (auto simp: keeps_duplicate_def)
  have nn: "next_ptr new = None" by (rule FillSetDetails_next_ptr [OF fill])
  text \<open>The first part, for any well-formed registry and fresh address.\<close>
  have part1: "\<exists>m'. AddFile check file_names allow PATHSEPCHAR ini p m ini_filename basepath_length
                    = Some (m', \<not> ?L D) \<and>
                 map_option unlinked (heap m' p) = Some new \<and>
                 (if ?L D
                  then registry m' as (p # ds) \<and> (\<forall>a. a \<noteq> p \<longrightarrow> heap m' a = heap m a) \<and>
                       heap m' d = Some D \<and> used_set m' = used_set m
                  else (\<exists>as' ds'. registry m' as' ds' \<and> p \<in> set as' \<and> p \<notin> set ds')) \<and>
                 (name D = name new \<and> shortname D = shortname new \<and> version D = version new \<and>
                  valid_files D = valid_files new \<longrightarrow> registry m' as (p # ds))"
    if wf: "registry m as ds" and fresh: "heap m p = None"
      and dup: "List.find (collides (heap m) new) as = Some d" "heap m d = Some D"
    for m as ds p d D
  proof -
    let ?m = "m\<lparr>heap := (heap m)(p \<mapsto> new)\<rparr>"
    have pn: "p \<notin> set (as @ ds)" and wf': "registry ?m as ds"
      using registry_allocate [OF wf fresh] by simp_all
    have hp: "heap ?m p = Some new" by simp
    have run: "AddFile check file_names allow PATHSEPCHAR ini p m ini_filename basepath_length
             = link_set ?m p new"
      by (rule AddFile_links [OF len fill])
    have dp: "d \<noteq> p" using dup(2) fresh by auto
    have dup': "List.find (collides (heap ?m) new) as = Some d" "heap ?m d = Some D"
      using dup pn dp by (simp_all add: find_collides_upd)
    show ?thesis
    proof (cases "?L D")
      case True
      then have "keeps_duplicate D new" using L by simp
      from link_set_keep [OF wf' hp nn pn dup' this] obtain m' where
        m': "link_set ?m p new = Some (m', False)" "registry m' as (p # ds)"
          "used_set m' = used_set ?m" "\<forall>a. a \<noteq> p \<longrightarrow> heap m' a = heap ?m a"
          "\<forall>a. map_option unlinked (heap m' a) = map_option unlinked (heap ?m a)"
        by blast
      have "\<forall>a. map_option unlinked (heap m' a) = map_option unlinked (((heap m)(p \<mapsto> new)) a)"
        using m'(5) by simp
      from unlinked_allocate(1) [OF fresh nn this]
      have at_p: "map_option unlinked (heap m' p) = Some new" .
      have others: "\<forall>a. a \<noteq> p \<longrightarrow> heap m' a = heap m a" using m'(4) by simp
      then have "heap m' d = Some D" using dp dup(2) by simp
      then show ?thesis using True m'(1,2,3) at_p others run by (intro exI [of _ m']) simp
    next
      case False
      then have win: "\<not> keeps_duplicate D new" using L by simp
      obtain xs ys where split: "as = xs @ d # ys" "\<forall>a \<in> set xs. \<not> collides (heap ?m) new a"
          "collides (heap ?m) new d"
        using find_split [OF dup'(1)] by blast
      from link_set_replace [OF wf' [unfolded split(1)] hp nn pn [unfolded split(1)] split(2,3) dup'(2) win]
      obtain m' where m': "link_set ?m p new = Some (m', True)"
          "registry m' (xs @ p # ys) (d # ds)"
          "\<forall>a. map_option unlinked (heap m' a) = map_option unlinked (heap ?m a)"
        by blast
      have "\<forall>a. map_option unlinked (heap m' a) = map_option unlinked (((heap m)(p \<mapsto> new)) a)"
        using m'(3) by simp
      from unlinked_allocate(1) [OF fresh nn this]
      have at_p: "map_option unlinked (heap m' p) = Some new" .
      have "p \<in> set (xs @ p # ys) \<and> p \<notin> set (d # ds)" using pn dp by auto
      then have "\<exists>as' ds'. registry m' as' ds' \<and> p \<in> set as' \<and> p \<notin> set ds'"
        using m'(2) by blast
      then show ?thesis using False m'(1) at_p run by (intro exI [of _ m']) auto
    qed
  qed
  text \<open>
    The first call returns, and after it the new descriptor, or the set it lost against,
    is the first collision.
  \<close>
  have part2: "\<exists>m1 r as1 ds1 d1 D1.
                 AddFile check file_names allow PATHSEPCHAR ini p m ini_filename basepath_length
                   = Some (m1, r) \<and>
                 registry m1 as1 ds1 \<and> List.find (collides (heap m1) new) as1 = Some d1 \<and>
                 heap m1 d1 = Some D1 \<and> ?L D1"
  proof -
    let ?m = "m\<lparr>heap := (heap m)(p \<mapsto> new)\<rparr>"
    have pn: "p \<notin> set (as @ ds)" and wf': "registry ?m as ds"
      using registry_allocate [OF wf fresh] by simp_all
    have hp: "heap ?m p = Some new" by simp
    have run: "AddFile check file_names allow PATHSEPCHAR ini p m ini_filename basepath_length
             = link_set ?m p new"
      by (rule AddFile_links [OF len fill])
    have same: "collides (heap m1) new a = collides (heap ?m) new a"
      if "\<forall>a. map_option unlinked (heap m1 a) = map_option unlinked (heap ?m a)" for a m1
      using collides_unlinked [of "heap m1" a "heap ?m" new] that by blast
    have "collides (heap ?m) new p" by (simp add: collides_def)
    then have own: "collides (heap m1) new p"
      if "\<forall>a. map_option unlinked (heap m1 a) = map_option unlinked (heap ?m a)" for m1
      using same [OF that] by simp
    have kept: "?L D1" if "heap m1 p = Some D1"
      "map_option unlinked (heap m1 p) = map_option unlinked (heap ?m p)" for D1 m1
    proof -
      have "unlinked D1 = unlinked new" using that by simp
      from unlinked_fields [OF this] show ?thesis by simp
    qed
    show ?thesis
    proof (cases "List.find (collides (heap ?m) new) as")
      case None
      from link_set_append [OF wf' hp nn pn None] obtain m1 where
        m1: "link_set ?m p new = Some (m1, True)" "registry m1 (as @ [p]) ds"
        "\<forall>a. map_option unlinked (heap m1 a) = map_option unlinked (heap ?m a)" by blast
      have r: "AddFile check file_names allow PATHSEPCHAR ini p m ini_filename basepath_length
                 = Some (m1, True)"
        using run m1(1) by simp
      have "\<forall>a \<in> set as. \<not> collides (heap m1) new a"
        using None same [OF m1(3)] by (simp add: find_None_iff)
      moreover have "collides (heap m1) new p" using own [OF m1(3)] .
      ultimately have f: "List.find (collides (heap m1) new) (as @ [p]) = Some p"
        by (rule find_first)
      obtain D1 where D1: "heap m1 p = Some D1"
        using m1(2) chain_allocated [of "heap m1" "available_sets m1" "as @ [p]" p]
        by (auto simp: registry_def)
      have "?L D1" using kept [OF D1] m1(3) by blast
      then show ?thesis using r m1(2) f D1 by blast
    next
      case (Some d)
      then have "d \<in> set as" by (auto simp: find_Some_iff)
      then obtain D where D: "heap ?m d = Some D"
        using wf' chain_allocated [of "heap ?m" "available_sets ?m" as d]
        by (auto simp: registry_def)
      have dp: "d \<noteq> p" using \<open>d \<in> set as\<close> pn by auto
      show ?thesis
      proof (cases "keeps_duplicate D new")
        case True
        from link_set_keep [OF wf' hp nn pn Some D True] obtain m1 where
          m1: "link_set ?m p new = Some (m1, False)" "registry m1 as (p # ds)"
          "\<forall>a. a \<noteq> p \<longrightarrow> heap m1 a = heap ?m a"
          "\<forall>a. map_option unlinked (heap m1 a) = map_option unlinked (heap ?m a)" by blast
        have r: "AddFile check file_names allow PATHSEPCHAR ini p m ini_filename basepath_length
                   = Some (m1, False)"
          using run m1(1) by simp
        have "collides (heap m1) new = collides (heap ?m) new"
          using same [OF m1(4)] by (intro ext)
        then have "List.find (collides (heap m1) new) as = Some d" using Some by simp
        moreover have "heap m1 d = Some D" using m1(3) dp D by simp
        ultimately show ?thesis using r m1(2) True L by blast
      next
        case False
        obtain xs ys where split: "as = xs @ d # ys" "\<forall>a \<in> set xs. \<not> collides (heap ?m) new a"
            "collides (heap ?m) new d"
          using find_split [OF Some] by blast
        from link_set_replace [OF wf' [unfolded split(1)] hp nn pn [unfolded split(1)] split(2,3) D False]
        obtain m1 where m1: "link_set ?m p new = Some (m1, True)"
          "registry m1 (xs @ p # ys) (d # ds)"
          "\<forall>a. map_option unlinked (heap m1 a) = map_option unlinked (heap ?m a)" by blast
        have r: "AddFile check file_names allow PATHSEPCHAR ini p m ini_filename basepath_length
                   = Some (m1, True)"
          using run m1(1) by simp
        have "\<forall>a \<in> set xs. \<not> collides (heap m1) new a"
          using split(2) same [OF m1(3)] by simp
        moreover have "collides (heap m1) new p" using own [OF m1(3)] .
        ultimately have f: "List.find (collides (heap m1) new) (xs @ p # ys) = Some p"
          by (rule find_first)
        obtain D1 where D1: "heap m1 p = Some D1"
          using m1(2) chain_allocated [of "heap m1" "available_sets m1" "xs @ p # ys" p]
          by (auto simp: registry_def)
        have "?L D1" using kept [OF D1] m1(3) by blast
        then show ?thesis using r m1(2) f D1 by blast
      qed
    qed
  qed
  show ?thesis
  proof (intro conjI allI impI)
    fix d D
    assume "List.find (collides (heap m) new) as = Some d" "heap m d = Some D"
    from part1 [OF wf fresh this]
    show "\<exists>m'. AddFile check file_names allow PATHSEPCHAR ini p m ini_filename basepath_length
                    = Some (m', \<not> ?L D) \<and>
                 map_option unlinked (heap m' p) = Some new \<and>
                 (if ?L D
                  then registry m' as (p # ds) \<and> (\<forall>a. a \<noteq> p \<longrightarrow> heap m' a = heap m a) \<and>
                       heap m' d = Some D \<and> used_set m' = used_set m
                  else (\<exists>as' ds'. registry m' as' ds' \<and> p \<in> set as' \<and> p \<notin> set ds')) \<and>
                 (name D = name new \<and> shortname D = shortname new \<and> version D = version new \<and>
                  valid_files D = valid_files new \<longrightarrow> registry m' as (p # ds))" .
  next
    from part2 obtain m1 r as1 ds1 d1 D1 where
      1: "AddFile check file_names allow PATHSEPCHAR ini p m ini_filename basepath_length = Some (m1, r)"
        "registry m1 as1 ds1" "List.find (collides (heap m1) new) as1 = Some d1"
        "heap m1 d1 = Some D1" "?L D1"
      by blast
    have "\<exists>as1 ds1 m2. registry m1 as1 ds1 \<and>
              AddFile check file_names allow PATHSEPCHAR ini q m1 ini_filename basepath_length
                = Some (m2, False) \<and>
              registry m2 as1 (q # ds1) \<and>
              map_option unlinked (heap m2 q) = Some new \<and>
              (\<forall>a. a \<noteq> q \<longrightarrow> heap m2 a = heap m1 a)"
      if q: "heap m1 q = None" for q
    proof -
      from part1 [OF 1(2) q 1(3,4)] 1(5)
      obtain m2 where "AddFile check file_names allow PATHSEPCHAR ini q m1 ini_filename basepath_length
                  = Some (m2, False)" "registry m2 as1 (q # ds1)"
          "map_option unlinked (heap m2 q) = Some new" "\<forall>a. a \<noteq> q \<longrightarrow> heap m2 a = heap m1 a"
        by auto
      then show ?thesis using 1(2) by blast
    qed
    then show "\<exists>m1 r. AddFile check file_names allow PATHSEPCHAR ini p m ini_filename basepath_length
                    = Some (m1, r) \<and>
           (\<forall>q. heap m1 q = None \<longrightarrow>
             (\<exists>as1 ds1 m2. registry m1 as1 ds1 \<and>
                AddFile check file_names allow PATHSEPCHAR ini q m1 ini_filename basepath_length
                  = Some (m2, False) \<and>
                registry m2 as1 (q # ds1) \<and>
                map_option unlinked (heap m2 q) = Some new \<and>
                (\<forall>a. a \<noteq> q \<longrightarrow> heap m2 a = heap m1 a)))"
      using 1(1) by blast
  qed
qed

text \<open>
  The registry stays well-formed under \<open>AddFile\<close>, and a set in use that is linked stays
  linked.
\<close>

lemma AddFile_preserves:
  assumes wf: "registry m as ds" and fresh: "heap m p = None"
    and run: "AddFile check file_names allow PATHSEPCHAR ini p m ini_filename basepath_length = Some (m', r)"
  shows "\<exists>as' ds'. registry m' as' ds' \<and> (used_linked m as \<longrightarrow> used_linked m' as')"
proof -
  have len: "basepath_length \<le> length ini_filename"
    using run by (auto simp: AddFile_def split: if_splits)
  let ?fill = "FillSetDetails check file_names ini (set_path PATHSEPCHAR (drop basepath_length ini_filename))
              ini_filename allow"
  show ?thesis
  proof (cases ?fill)
    case (Inl e)
    then have "m' = m" using run len by (cases e) (auto simp: AddFile_def)
    then show ?thesis using wf by blast
  next
    case (Inr new)
    let ?m = "m\<lparr>heap := (heap m)(p \<mapsto> new)\<rparr>"
    have pn: "p \<notin> set (as @ ds)" and wf': "registry ?m as ds"
      using registry_allocate [OF wf fresh] by simp_all
    have hp: "heap ?m p = Some new" "next_ptr new = None"
      using FillSetDetails_next_ptr [OF Inr] by simp_all
    have ls: "link_set ?m p new = Some (m', r)"
      using AddFile_links [OF len Inr] run by simp
    show ?thesis
    proof (cases "List.find (collides (heap ?m) new) as")
      case None
      from link_set_append [OF wf' hp pn None] ls
      have 1: "registry m' (as @ [p]) ds" "used_set m' = used_set m" by auto
      then have "used_linked m as \<longrightarrow> used_linked m' (as @ [p])"
        by (auto simp: used_linked_def split: option.splits)
      then show ?thesis using 1(1) by blast
    next
      case (Some d)
      then have "d \<in> set as" by (auto simp: find_Some_iff)
      then obtain D where D: "heap ?m d = Some D"
        using wf' chain_allocated [of "heap ?m" "available_sets ?m" as d]
        by (auto simp: registry_def)
      show ?thesis
      proof (cases "keeps_duplicate D new")
        case True
        from link_set_keep [OF wf' hp pn Some D True] ls
        have 1: "registry m' as (p # ds)" "used_set m' = used_set m" by auto
        then have "used_linked m as \<longrightarrow> used_linked m' as"
          by (auto simp: used_linked_def split: option.splits)
        then show ?thesis using 1(1) by blast
      next
        case False
        obtain xs ys where split: "as = xs @ d # ys" "\<forall>a \<in> set xs. \<not> collides (heap ?m) new a"
            "collides (heap ?m) new d"
          using find_split [OF Some] by blast
        from link_set_replace [OF wf' [unfolded split(1)] hp pn [unfolded split(1)] split(2,3) D False] ls
        have 1: "registry m' (xs @ p # ys) (d # ds)"
          "used_set m' = (if used_set m = Some d then Some p else used_set m)" by auto
        then have "used_linked m as \<longrightarrow> used_linked m' (xs @ p # ys)"
          using split(1) by (auto simp: used_linked_def split: option.splits if_splits)
        then show ?thesis using 1(1) by blast
      qed
    qed
  qed
qed

text \<open>\<open>AddFile\<close> returns when the values of the manifest are given.\<close>

lemma AddFile_returns:
  assumes wf: "registry m as ds" and fresh: "heap m p = None"
    and len: "basepath_length \<le> length ini_filename"
    and given: "values_given ini"
  shows "\<exists>m' r. AddFile check file_names allow PATHSEPCHAR ini p m ini_filename basepath_length
                  = Some (m', r)"
proof (cases "FillSetDetails check file_names ini (set_path PATHSEPCHAR (drop basepath_length ini_filename))
              ini_filename allow")
  case (Inl e)
  then have "e = ReturnsFalse"
    using FillSetDetails_given [OF given, of check file_names
        "set_path PATHSEPCHAR (drop basepath_length ini_filename)" ini_filename allow]
    by (cases e) auto
  then have "AddFile check file_names allow PATHSEPCHAR ini p m ini_filename basepath_length
                  = Some (m, False)"
    using Inl len by (simp add: AddFile_def)
  then show ?thesis by blast
next
  case (Inr new)
  let ?m = "m\<lparr>heap := (heap m)(p \<mapsto> new)\<rparr>"
  have pn: "p \<notin> set (as @ ds)" and wf': "registry ?m as ds"
    using registry_allocate [OF wf fresh] by simp_all
  have hp: "heap ?m p = Some new" "next_ptr new = None"
    using FillSetDetails_next_ptr [OF Inr] by simp_all
  have run: "AddFile check file_names allow PATHSEPCHAR ini p m ini_filename basepath_length
           = link_set ?m p new"
    by (rule AddFile_links [OF len Inr])
  show ?thesis
  proof (cases "List.find (collides (heap ?m) new) as")
    case None
    from link_set_append [OF wf' hp pn None] show ?thesis using run by auto
  next
    case (Some d)
    then have "d \<in> set as" by (auto simp: find_Some_iff)
    then obtain D where D: "heap ?m d = Some D"
      using wf' chain_allocated [of "heap ?m" "available_sets ?m" as d]
      by (auto simp: registry_def)
    show ?thesis
    proof (cases "keeps_duplicate D new")
      case True
      from link_set_keep [OF wf' hp pn Some D True] show ?thesis using run by auto
    next
      case False
      obtain xs ys where split: "as = xs @ d # ys" "\<forall>a \<in> set xs. \<not> collides (heap ?m) new a"
          "collides (heap ?m) new d"
        using find_split [OF Some] by blast
      from link_set_replace [OF wf' [unfolded split(1)] hp pn [unfolded split(1)] split(2,3) D False]
      show ?thesis using run by auto
    qed
  qed
qed

text \<open>
  Claim C2.  In a registry with the accepted sets \<open>as\<close> and the superseded sets \<open>ds\<close>,
  for the fresh address \<open>p\<close>: when the accepted list is \<open>xs @ d # ys\<close>, no set of
  \<open>xs\<close> collides with the accepted descriptor \<open>new\<close>, the set \<open>d\<close> with the descriptor
  \<open>D\<close> collides, and \<open>new\<close> does not lose against \<open>D\<close>, then \<open>AddFile\<close> returns
  "added", the accepted list is \<open>xs @ p # ys\<close>, the superseded list is \<open>d # ds\<close>, the
  set in use is \<open>p\<close> if it was \<open>d\<close> and as before otherwise, the descriptor at \<open>p\<close> is
  \<open>new\<close>, and no other descriptor has changed but for its link.  And whatever
  \<open>AddFile\<close> returns: if the set in use was \<open>NULL\<close> or an accepted set before, it is
  \<open>NULL\<close> or an accepted set of the registry afterwards.  And \<open>AddFile\<close> does return,
  with such a registry, for every manifest whose values are given and every base path
  that is not longer than the file name.
\<close>
theorem AddFile_new_wins:
  assumes wf: "registry m as ds" and fresh: "heap m p = None"
  shows "(\<forall>new xs d ys D.
            basepath_length \<le> length ini_filename \<longrightarrow>
            FillSetDetails check file_names ini (set_path PATHSEPCHAR (drop basepath_length ini_filename))
              ini_filename allow = Inr new \<longrightarrow>
            as = xs @ d # ys \<longrightarrow> (\<forall>a \<in> set xs. \<not> collides (heap m) new a) \<longrightarrow>
            collides (heap m) new d \<longrightarrow> heap m d = Some D \<longrightarrow>
            \<not> ((valid_files new = valid_files D \<and> sint (version D) \<ge> sint (version new)) \<or>
               valid_files D > valid_files new) \<longrightarrow>
            (\<exists>m'. AddFile check file_names allow PATHSEPCHAR ini p m ini_filename basepath_length
                     = Some (m', True) \<and>
                   registry m' (xs @ p # ys) (d # ds) \<and>
                   used_set m' = (if used_set m = Some d then Some p else used_set m) \<and>
                   map_option unlinked (heap m' p) = Some new \<and>
                   (\<forall>a. a \<noteq> p \<longrightarrow> map_option unlinked (heap m' a) = map_option unlinked (heap m a)))) \<and>
         (\<forall>m' r. AddFile check file_names allow PATHSEPCHAR ini p m ini_filename basepath_length
                    = Some (m', r) \<longrightarrow> used_linked m as \<longrightarrow>
                  (\<exists>as' ds'. registry m' as' ds' \<and> used_linked m' as')) \<and>
         (values_given ini \<longrightarrow> basepath_length \<le> length ini_filename \<longrightarrow>
            (\<exists>m' r as' ds'.
               AddFile check file_names allow PATHSEPCHAR ini p m ini_filename basepath_length
                 = Some (m', r) \<and>
               registry m' as' ds' \<and> (used_linked m as \<longrightarrow> used_linked m' as')))"
proof (intro conjI allI impI)
  fix new xs d ys D
  assume len: "basepath_length \<le> length ini_filename"
    and fill: "FillSetDetails check file_names ini (set_path PATHSEPCHAR (drop basepath_length ini_filename))
              ini_filename allow = Inr new"
    and split: "as = xs @ d # ys" "\<forall>a \<in> set xs. \<not> collides (heap m) new a" "collides (heap m) new d"
    and D: "heap m d = Some D"
    and nL: "\<not> ((valid_files new = valid_files D \<and> sint (version D) \<ge> sint (version new)) \<or>
               valid_files D > valid_files new)"
  let ?m = "m\<lparr>heap := (heap m)(p \<mapsto> new)\<rparr>"
  have pn: "p \<notin> set (as @ ds)" and wf': "registry ?m as ds"
    using registry_allocate [OF wf fresh] by simp_all
  have hp: "heap ?m p = Some new" "next_ptr new = None"
    using FillSetDetails_next_ptr [OF fill] by simp_all
  have run: "AddFile check file_names allow PATHSEPCHAR ini p m ini_filename basepath_length
           = link_set ?m p new"
    by (rule AddFile_links [OF len fill])
  have dp: "d \<noteq> p" using D fresh by auto
  have first: "\<forall>a \<in> set xs. \<not> collides (heap ?m) new a" "collides (heap ?m) new d"
    using split pn by (simp_all add: collides_upd_in [of p as])
  have D': "heap ?m d = Some D" using D dp by simp
  have win: "\<not> keeps_duplicate D new" using nL by (auto simp: keeps_duplicate_def)
  from link_set_replace [OF wf' [unfolded split(1)] hp pn [unfolded split(1)] first D' win]
  obtain m' where m': "link_set ?m p new = Some (m', True)"
      "registry m' (xs @ p # ys) (d # ds)"
      "used_set m' = (if used_set ?m = Some d then Some p else used_set ?m)"
      "\<forall>a. map_option unlinked (heap m' a) = map_option unlinked (heap ?m a)"
    by blast
  have "\<forall>a. map_option unlinked (heap m' a) = map_option unlinked (((heap m)(p \<mapsto> new)) a)"
    using m'(4) by simp
  from unlinked_allocate [OF fresh hp(2) this]
  have "map_option unlinked (heap m' p) = Some new"
    "\<forall>a. a \<noteq> p \<longrightarrow> map_option unlinked (heap m' a) = map_option unlinked (heap m a)"
    by simp_all
  then show "\<exists>m'. AddFile check file_names allow PATHSEPCHAR ini p m ini_filename basepath_length
                     = Some (m', True) \<and>
                   registry m' (xs @ p # ys) (d # ds) \<and>
                   used_set m' = (if used_set m = Some d then Some p else used_set m) \<and>
                   map_option unlinked (heap m' p) = Some new \<and>
                   (\<forall>a. a \<noteq> p \<longrightarrow> map_option unlinked (heap m' a) = map_option unlinked (heap m a))"
    using m' run by (intro exI [of _ m']) simp
next
  fix m' r
  assume "AddFile check file_names allow PATHSEPCHAR ini p m ini_filename basepath_length = Some (m', r)"
    and "used_linked m as"
  then show "\<exists>as' ds'. registry m' as' ds' \<and> used_linked m' as'"
    using AddFile_preserves [OF wf fresh] by blast
next
  assume given: "values_given ini" and len: "basepath_length \<le> length ini_filename"
  from AddFile_returns [OF wf fresh len given] obtain m' r where
    run: "AddFile check file_names allow PATHSEPCHAR ini p m ini_filename basepath_length = Some (m', r)"
    by blast
  from AddFile_preserves [OF wf fresh run]
  show "\<exists>m' r as' ds'.
               AddFile check file_names allow PATHSEPCHAR ini p m ini_filename basepath_length
                 = Some (m', r) \<and>
               registry m' as' ds' \<and> (used_linked m as \<longrightarrow> used_linked m' as')"
    using run by blast
qed


section \<open>Examples\<close>

lemma example_chains:
  "registry (example_registry example_beta) [10, 20, 30] [40]"
  "registry (example_registry example_old) [10, 20, 30] [40]"
  "registry (example_registry example_current) [10, 20, 30] [40]"
  by (simp_all add: registry_def chain_def example_registry_def example_set_def)

text \<open>
  For claim C8.  The example registry shows two sets, the complete set at 10 and the set
  in use at 30; the set in use has the index 1; without a set in use the index is \<open>- 1\<close>.
\<close>

theorem GetNumSets_GetIndexOfUsedSet_visible_witness:
  "GetNumSets (example_registry example_beta) = Some 2 \<and>
   GetIndexOfUsedSet (example_registry example_beta) = Some 1 \<and>
   GetIndexOfUsedSet (example_registry example_beta\<lparr>used_set := None\<rparr>) = Some (- 1)"
proof -
  let ?m = "example_registry example_beta"
  have c: "chain (heap ?m) (available_sets ?m) [10, 20, 30]"
    using example_chains(1) by (simp add: registry_def)
  have u: "used_linked ?m [10, 20, 30]"
    by (simp add: used_linked_def example_registry_def)
  have c': "chain (heap (?m\<lparr>used_set := None\<rparr>)) (available_sets (?m\<lparr>used_set := None\<rparr>)) [10, 20, 30]"
    using c by simp
  have u': "used_linked (?m\<lparr>used_set := None\<rparr>) [10, 20, 30]"
    by (simp add: used_linked_def)
  have v: "visible ?m 10" "\<not> visible ?m 20" "visible ?m 30"
    by (simp_all add: visible_def complete_at_def example_registry_def example_set_def
          example_beta_def GetNumMissing_def)
  have us: "used_set ?m = Some 30" by (simp add: example_registry_def)
  show ?thesis
    using GetNumSets_GetIndexOfUsedSet_visible [OF c u]
      GetNumSets_GetIndexOfUsedSet_visible [OF c' u']
    by (simp add: v us)
qed

text \<open>
  For claim C9.  Selecting \<open>beta\<close> makes the set at 20 the set in use; selecting the
  unknown \<open>delta\<close> fails and changes nothing.
\<close>

theorem SetSet_by_name_witness:
  "SetSet (\<lambda>m. None) (Some ''beta'') (example_registry example_beta)
     = Some (example_registry example_beta\<lparr>used_set := Some 20\<rparr>, True) \<and>
   SetSet (\<lambda>m. None) (Some ''delta'') (example_registry example_beta)
     = Some (example_registry example_beta, False)"
proof -
  let ?m = "example_registry example_beta"
  have c: "chain (heap ?m) (available_sets ?m) [10, 20, 30]"
    using example_chains(1) by (simp add: registry_def)
  have n: "name_at (heap ?m) 10 = Some ''alpha''" "name_at (heap ?m) 20 = Some ''beta''"
    "name_at (heap ?m) 30 = Some ''gamma''"
    by (simp_all add: name_at_def example_registry_def example_set_def example_beta_def)
  show ?thesis
    using SetSet_by_name [OF c, of "''beta''" "\<lambda>m. None"]
      SetSet_by_name [OF c, of "''delta''" "\<lambda>m. None"]
    by (simp add: n)
qed

text \<open>
  For claim C3.  A query for the short name 2 with the digest of the example files: the
  accepted set at 20 has a missing file and is passed over, the superseded set at 40 is
  complete and has that digest, so its primary file is returned and \<open>HasSet\<close> holds.
\<close>

theorem TryGetBaseSetFile_first_match_witness:
  "TryGetBaseSetFile (heap (example_registry example_beta))
     \<lparr>unique_id = 2, ci_md5sum = hash example_file\<rparr> True
     (available_sets (example_registry example_beta)) = Some None \<and>
   TryGetBaseSetFile (heap (example_registry example_beta))
     \<lparr>unique_id = 2, ci_md5sum = hash example_file\<rparr> True
     (duplicate_sets (example_registry example_beta)) = Some (Some ''data/trg1r.grf'') \<and>
   HasSet (example_registry example_beta) \<lparr>unique_id = 2, ci_md5sum = hash example_file\<rparr> True
     = Some True"
proof -
  let ?m = "example_registry example_beta"
  let ?ci = "\<lparr>unique_id = 2, ci_md5sum = hash example_file\<rparr>"
  have hs: "list_all (hashes_sized (heap ?m)) ([10, 20, 30] @ [40])"
    by (simp add: hashes_sized_def example_registry_def example_set_def example_beta_def
          example_file_def zero_file_def)
  have cd: "\<And>n sn v valid found nx.
      combined_digest (example_set n sn v valid found nx) = take 16 (hash example_file)"
    by code_simp
  have s: "\<not> satisfies (heap ?m) ?ci True 10" "\<not> satisfies (heap ?m) ?ci True 20"
    "\<not> satisfies (heap ?m) ?ci True 30" "satisfies (heap ?m) ?ci True 40"
    by (simp_all add: satisfies_def example_registry_def example_beta_def cd)
       (simp_all add: example_set_def GetNumMissing_def)
  have p: "primary_file (heap ?m) 40 = Some ''data/trg1r.grf''"
    by (simp add: primary_file_def example_registry_def example_set_def example_file_def)
  show ?thesis
    using TryGetBaseSetFile_first_match [OF example_chains(1) hs, of ?ci True]
    by (simp add: s p first_match_def)
qed

lemma example_path: "set_path (CHR ''/'') example_filename = ''data/''"
  by code_simp

lemma example_new:
  obtains new where
    "FillSetDetails (\<lambda>file. CR_MATCH) example_file_names (example_ini example_metadata example_md5)
       (set_path (CHR ''/'') (drop 0 example_filename)) example_filename True = Inr new"
    "name new = ''original_windows''" "shortname new = 0x57445454" "version new = 1"
    "valid_files new = 2"
proof -
  have "map_sum id (\<lambda>s. (name s, shortname s, version s, valid_files s))
          (example_fill CR_MATCH example_metadata example_md5)
        = Inr (''original_windows'', 0x57445454, 1, 2)"
    by code_simp
  then obtain new where "example_fill CR_MATCH example_metadata example_md5 = Inr new"
    "name new = ''original_windows''" "shortname new = 0x57445454" "version new = 1"
    "valid_files new = 2"
    by (cases "example_fill CR_MATCH example_metadata example_md5") auto
  then show ?thesis using that by (simp add: example_fill_def example_path)
qed

lemma example_new_wrapped:
  obtains new where
    "FillSetDetails (\<lambda>file. CR_MATCH) example_file_names (example_ini example_wrapped example_md5)
       (set_path (CHR ''/'') (drop 0 example_filename)) example_filename True = Inr new"
    "name new = ''original_windows''" "shortname new = 0x57445454" "version new = 1"
    "valid_files new = 2"
proof -
  have "map_sum id (\<lambda>s. (name s, shortname s, version s, valid_files s))
          (example_fill CR_MATCH example_wrapped example_md5)
        = Inr (''original_windows'', 0x57445454, 1, 2)"
    by code_simp
  then obtain new where "example_fill CR_MATCH example_wrapped example_md5 = Inr new"
    "name new = ''original_windows''" "shortname new = 0x57445454" "version new = 1"
    "valid_files new = 2"
    by (cases "example_fill CR_MATCH example_wrapped example_md5") auto
  then show ?thesis using that by (simp add: example_fill_def example_path)
qed

text \<open>
  For claim C1.  First, the example registry with the version 2 of the set of the
  example manifest at 20, and the manifest with the version \<open>4294967297\<close>, which
  \<open>atoi\<close> reads as 1: the new descriptor at 50 loses, it is the new head of the
  superseded list, the accepted list and the set at 20 are as before, and so is the set
  in use.  Second, the example manifest is added twice to the empty registry: the first
  descriptor is accepted, the second, at another address, is superseded, and the accepted
  list still has the first one alone.
\<close>

theorem AddFile_new_loses_witness:
  "(\<exists>m'. example_AddFile example_wrapped example_md5 50 (example_registry example_current)
            = Some (m', False) \<and>
          registry m' [10, 20, 30] [50, 40] \<and>
          map_option (\<lambda>s. (name s, sint (version s), valid_files s)) (heap m' 50)
            = Some (''original_windows'', 1, 2) \<and>
          map_option (\<lambda>s. (name s, sint (version s), valid_files s)) (heap m' 20)
            = Some (''original_windows'', 2, 2) \<and>
          used_set m' = Some 30) \<and>
   (\<exists>m1 m2. example_AddFile example_metadata example_md5 10 empty_registry = Some (m1, True) \<and>
            registry m1 [10] [] \<and>
            example_AddFile example_metadata example_md5 20 m1 = Some (m2, False) \<and>
            registry m2 [10] [20])"
proof (rule conjI)
  let ?m = "example_registry example_current"
  let ?D = "example_current\<lparr>next_ptr := Some 30\<rparr>"
  obtain new where new:
    "FillSetDetails (\<lambda>file. CR_MATCH) example_file_names (example_ini example_wrapped example_md5)
       (set_path (CHR ''/'') (drop 0 example_filename)) example_filename True = Inr new"
    "name new = ''original_windows''" "shortname new = 0x57445454" "version new = 1"
    "valid_files new = 2"
    by (rule example_new_wrapped)
  have fresh: "heap ?m 50 = None" by (simp add: example_registry_def)
  have len: "0 \<le> length example_filename" by simp
  have f: "List.find (collides (heap ?m) new) [10, 20, 30] = Some 20"
    using new by (simp add: collides_def example_registry_def example_set_def example_current_def)
  have D: "heap ?m 20 = Some ?D" by (simp add: example_registry_def)
  have L: "(valid_files new = valid_files ?D \<and> sint (version ?D) \<ge> sint (version new)) \<or>
           valid_files ?D > valid_files new"
    using new by (simp add: example_current_def example_set_def)
  from conjunct1 [OF AddFile_new_loses [OF example_chains(3) fresh len new(1)]] f D
  have "\<exists>m'. AddFile (\<lambda>file. CR_MATCH) example_file_names True (CHR ''/'')
                (example_ini example_wrapped example_md5) 50 ?m example_filename 0
              = Some (m', \<not> ((valid_files new = valid_files ?D \<and> sint (version ?D) \<ge> sint (version new)) \<or>
                              valid_files ?D > valid_files new)) \<and>
             map_option unlinked (heap m' 50) = Some new \<and>
             (if (valid_files new = valid_files ?D \<and> sint (version ?D) \<ge> sint (version new)) \<or>
                 valid_files ?D > valid_files new
              then registry m' [10, 20, 30] (50 # [40]) \<and> (\<forall>a. a \<noteq> 50 \<longrightarrow> heap m' a = heap ?m a) \<and>
                   heap m' 20 = Some ?D \<and> used_set m' = used_set ?m
              else (\<exists>as' ds'. registry m' as' ds' \<and> 50 \<in> set as' \<and> 50 \<notin> set ds'))"
    by blast
  then obtain m' where m': "example_AddFile example_wrapped example_md5 50 ?m = Some (m', False)"
      "map_option unlinked (heap m' 50) = Some new" "registry m' [10, 20, 30] [50, 40]"
      "heap m' 20 = Some ?D" "used_set m' = used_set ?m"
    using L by (auto simp: example_AddFile_def)
  from m'(2) obtain s where s: "heap m' 50 = Some s" "unlinked s = new" by auto
  have "name (unlinked s) = name s" "version (unlinked s) = version s"
    "valid_files (unlinked s) = valid_files s"
    by (simp_all add: unlinked_def)
  then have "name s = ''original_windows''" "version s = 1" "valid_files s = 2"
    using s(2) new by simp_all
  then have 1: "map_option (\<lambda>s. (name s, sint (version s), valid_files s)) (heap m' 50)
            = Some (''original_windows'', 1, 2)"
    using s(1) by simp
  have 2: "map_option (\<lambda>s. (name s, sint (version s), valid_files s)) (heap m' 20)
            = Some (''original_windows'', 2, 2)"
    using m'(4) by (simp add: example_current_def example_set_def)
  have 3: "used_set m' = Some 30" using m'(5) by (simp add: example_registry_def)
  show "\<exists>m'. example_AddFile example_wrapped example_md5 50 (example_registry example_current)
            = Some (m', False) \<and>
          registry m' [10, 20, 30] [50, 40] \<and>
          map_option (\<lambda>s. (name s, sint (version s), valid_files s)) (heap m' 50)
            = Some (''original_windows'', 1, 2) \<and>
          map_option (\<lambda>s. (name s, sint (version s), valid_files s)) (heap m' 20)
            = Some (''original_windows'', 2, 2) \<and>
          used_set m' = Some 30"
    using m'(1,3) 1 2 3 by blast
next
  obtain new where new:
    "FillSetDetails (\<lambda>file. CR_MATCH) example_file_names (example_ini example_metadata example_md5)
       (set_path (CHR ''/'') (drop 0 example_filename)) example_filename True = Inr new"
    by (rule example_new)
  have nn: "next_ptr new = None" by (rule FillSetDetails_next_ptr [OF new])
  have len: "0 \<le> length example_filename" by simp
  have wf: "registry empty_registry [] []" by (simp add: registry_def empty_registry_def)
  have fresh: "heap empty_registry 10 = None" by (simp add: empty_registry_def)
  let ?alloc = "empty_registry\<lparr>heap := (heap empty_registry)(10 \<mapsto> new)\<rparr>"
  have wf0: "registry ?alloc [] []" by (simp add: registry_def empty_registry_def)
  have "\<exists>m'. link_set ?alloc 10 new = Some (m', True) \<and> registry m' ([] @ [10]) [] \<and>
           used_set m' = used_set ?alloc \<and>
           (\<forall>a. map_option unlinked (heap m' a) = map_option unlinked (heap ?alloc a))"
    by (rule link_set_append [OF wf0 _ nn]) simp_all
  then obtain m1 where m1: "link_set ?alloc 10 new = Some (m1, True)" "registry m1 [10] []"
      "\<forall>a. map_option unlinked (heap m1 a) = map_option unlinked (heap ?alloc a)"
    by auto
  have add1: "AddFile (\<lambda>file. CR_MATCH) example_file_names True (CHR ''/'')
       (example_ini example_metadata example_md5) 10 empty_registry example_filename 0 = Some (m1, True)"
    using AddFile_links [OF len new, of 10 empty_registry] m1(1) by simp
  have "map_option unlinked (heap m1 20) = None"
    using m1(3) by (simp add: empty_registry_def)
  then have q: "heap m1 20 = None" by simp
  from conjunct2 [OF AddFile_new_loses [OF wf fresh len new]]
  obtain m1' r where first: "AddFile (\<lambda>file. CR_MATCH) example_file_names True (CHR ''/'')
       (example_ini example_metadata example_md5) 10 empty_registry example_filename 0 = Some (m1', r)"
    and again: "\<forall>q. heap m1' q = None \<longrightarrow>
       (\<exists>as1 ds1 m2. registry m1' as1 ds1 \<and>
          AddFile (\<lambda>file. CR_MATCH) example_file_names True (CHR ''/'')
            (example_ini example_metadata example_md5) q m1' example_filename 0 = Some (m2, False) \<and>
          registry m2 as1 (q # ds1) \<and>
          map_option unlinked (heap m2 q) = Some new \<and>
          (\<forall>a. a \<noteq> q \<longrightarrow> heap m2 a = heap m1' a))"
    by blast
  have "m1' = m1" using first add1 by simp
  then obtain as1 ds1 m2 where 2: "registry m1 as1 ds1"
    "AddFile (\<lambda>file. CR_MATCH) example_file_names True (CHR ''/'')
       (example_ini example_metadata example_md5) 20 m1 example_filename 0 = Some (m2, False)"
    "registry m2 as1 (20 # ds1)"
    using again q by blast
  have "as1 = [10] \<and> ds1 = []" using registry_unique [OF m1(2) 2(1)] .
  then show "\<exists>m1 m2. example_AddFile example_metadata example_md5 10 empty_registry = Some (m1, True) \<and>
            registry m1 [10] [] \<and>
            example_AddFile example_metadata example_md5 20 m1 = Some (m2, False) \<and>
            registry m2 [10] [20]"
    using add1 m1(2) 2 by (auto simp: example_AddFile_def)
qed

text \<open>
  For claim C2.  The example registry with an older version of the set of the example
  manifest at 20, which is the set in use: the new descriptor at 50 takes the place of
  20 in the accepted list, 20 is the new head of the superseded list, and 50 is the set
  in use.
\<close>

theorem AddFile_new_wins_witness:
  "\<exists>m'. example_AddFile example_metadata example_md5 50 (example_registry example_old\<lparr>used_set := Some 20\<rparr>)
           = Some (m', True) \<and>
         registry m' [10, 50, 30] [20, 40] \<and> used_set m' = Some 50 \<and>
         used_linked m' [10, 50, 30]"
proof -
  let ?m = "example_registry example_old\<lparr>used_set := Some 20\<rparr>"
  obtain new where new:
    "FillSetDetails (\<lambda>file. CR_MATCH) example_file_names (example_ini example_metadata example_md5)
       (set_path (CHR ''/'') (drop 0 example_filename)) example_filename True = Inr new"
    "name new = ''original_windows''" "shortname new = 0x57445454" "version new = 1"
    "valid_files new = 2"
    by (rule example_new)
  have wf: "registry ?m [10, 20, 30] [40]"
    using example_chains(2) by (simp add: registry_def)
  have fresh: "heap ?m 50 = None" by (simp add: example_registry_def)
  have len: "0 \<le> length example_filename" by simp
  have split: "[10, 20, 30] = [10] @ 20 # [30::nat]" by simp
  have c1: "\<forall>a \<in> set [10]. \<not> collides (heap ?m) new a"
    using new by (simp add: collides_def example_registry_def example_set_def)
  have c2: "collides (heap ?m) new 20"
    using new by (simp add: collides_def example_registry_def example_set_def example_old_def)
  have D: "heap ?m 20 = Some (example_old\<lparr>next_ptr := Some 30\<rparr>)"
    by (simp add: example_registry_def)
  have nL: "\<not> ((valid_files new = valid_files (example_old\<lparr>next_ptr := Some 30\<rparr>) \<and>
                 sint (version (example_old\<lparr>next_ptr := Some 30\<rparr>)) \<ge> sint (version new)) \<or>
               valid_files (example_old\<lparr>next_ptr := Some 30\<rparr>) > valid_files new)"
    using new by (simp add: example_old_def example_set_def)
  from AddFile_new_wins [OF wf fresh, of 0 example_filename "\<lambda>file. CR_MATCH" example_file_names
      "example_ini example_metadata example_md5" "CHR ''/''" True]
  have "\<exists>m'. AddFile (\<lambda>file. CR_MATCH) example_file_names True (CHR ''/'')
                (example_ini example_metadata example_md5) 50 ?m example_filename 0 = Some (m', True) \<and>
             registry m' ([10] @ 50 # [30]) (20 # [40]) \<and>
             used_set m' = (if used_set ?m = Some 20 then Some 50 else used_set ?m)"
    using len new(1) split c1 c2 D nL by blast
  then obtain m' where m': "example_AddFile example_metadata example_md5 50 ?m = Some (m', True)"
      "registry m' [10, 50, 30] [20, 40]" "used_set m' = Some 50"
    by (auto simp: example_AddFile_def)
  then have "used_linked m' [10, 50, 30]" by (simp add: used_linked_def)
  then show ?thesis using m' by blast
qed



end
